theory Spec2Isabelle
  imports Complex_Main "HOL-Library.Sublist" "HOL-Library.Multiset"
begin

text \<open>
  An embedding of the Go package \<open>gopeek\<close>: the classifier \<open>NewState\<close> of wait reasons,
  the builder of a \<open>Condition\<close> and its filters, \<open>Eval\<close> with its capture loop and its
  in-place filter loop, and the polling loop of \<open>Wait\<close>. The source file holds two
  revisions of the package; they differ in how a condition is constructed and in
  \<open>CreatedBy\<close>, which only the later one has, and agree on everything else modelled here.
\<close>

section \<open>The state classifier\<close>

text \<open>
  The Go type \<open>State\<close> is an integer enumeration declared with \<open>iota\<close>; only equality
  is ever used on it, so it is a datatype with one constructor per constant.
\<close>

datatype State =
    StateIdle
  | StateRunnable
  | StateRunning
  | StateSysCall
  | StateWaiting
  | StateDead
  | StateEnqueue
  | StateCopyStack
  | StateSleeping
  | StateWaitingChannel
  | StateWaitingSelect
  | StateWaitingGCActivity
  | StateWaitingIO
  | StateWaitingLock
  | StateOther

text \<open>The string constants of the source, byte for byte.\<close>

definition strIdle :: string where "strIdle = ''idle''"
definition strRunnable :: string where "strRunnable = ''runnable''"
definition strRunning :: string where "strRunning = ''running''"
definition strSysCall :: string where "strSysCall = ''syscall''"
definition strWaiting :: string where "strWaiting = ''waiting''"
definition strDead :: string where "strDead = ''dead''"
definition strEnqueue :: string where "strEnqueue = ''enqueue''"
definition strCopyStack :: string where "strCopyStack = ''copystack''"
definition strSleeping :: string where "strSleeping = ''sleep''"
definition strWaitingChannel :: string where "strWaitingChannel = ''chan''"
definition strWaitingSelect :: string where "strWaitingSelect = ''select''"
definition strWaitingGCActivity1 :: string where "strWaitingGCActivity1 = ''gc ''"
definition strWaitingGCActivity2 :: string where "strWaitingGCActivity2 = ''garbage''"
definition strWaitingIO :: string where "strWaitingIO = ''IO wait''"
definition strWaitingLock :: string where "strWaitingLock = ''sem''"

lemmas str_defs =
  strIdle_def strRunnable_def strRunning_def strSysCall_def strWaiting_def strDead_def
  strEnqueue_def strCopyStack_def strSleeping_def strWaitingChannel_def
  strWaitingSelect_def strWaitingGCActivity1_def strWaitingGCActivity2_def
  strWaitingIO_def strWaitingLock_def

text \<open>
  Go strings are byte sequences and so are HOL strings. The three library functions the
  classifier calls, on bytes:
  \<^item> \<open>strings.HasPrefix(s, p)\<close> is \<open>len(s) >= len(p) && s[:len(p)] == p\<close>;
  \<^item> \<open>strings.Contains(s, sub)\<close> holds when \<open>sub\<close> starts at some offset of \<open>s\<close>;
  \<^item> \<open>strings.ToLower\<close> maps the bytes \<open>A\<close>..\<open>Z\<close> to \<open>a\<close>..\<open>z\<close>. On text outside ASCII
    Go lowers whole runes; no rune outside ASCII lowers to a byte of \<open>garbage\<close> or
    \<open>gc \<close>, and the bytes of a multi-byte rune are never ASCII, so the two tests made
    on the lowered string see the same answer as on the byte-wise lowering.
\<close>

definition HasPrefix :: "string \<Rightarrow> string \<Rightarrow> bool" where
  "HasPrefix s p = (length p \<le> length s \<and> take (length p) s = p)"

fun Contains :: "string \<Rightarrow> string \<Rightarrow> bool" where
  "Contains [] sub = (sub = [])"
| "Contains (c # cs) sub = (HasPrefix (c # cs) sub \<or> Contains cs sub)"

definition toLowerByte :: "char \<Rightarrow> char" where
  "toLowerByte c =
     (let n = (of_char c :: nat) in if 65 \<le> n \<and> n \<le> 90 then char_of (n + 32) else c)"

definition ToLower :: "string \<Rightarrow> string" where
  "ToLower s = map toLowerByte s"

text \<open>
  \<open>NewState\<close>: the \<open>switch\<close> compares the whole string with each case in turn; the
  \<open>default\<close> branch runs the prefix tests and then the tests on the lowered string;
  whatever falls through returns \<open>StateOther\<close>.
\<close>

definition NewState :: "string \<Rightarrow> State" where
  "NewState state =
     (if state = strIdle then StateIdle
      else if state = strRunnable then StateRunnable
      else if state = strRunning then StateRunning
      else if state = strSysCall then StateSysCall
      else if state = strWaiting then StateWaiting
      else if state = strDead then StateDead
      else if state = strEnqueue then StateEnqueue
      else if state = strCopyStack then StateCopyStack
      else if state = strSleeping then StateSleeping
      else if state = strWaitingIO then StateWaitingIO
      else if HasPrefix state strWaitingLock then StateWaitingLock
      else if HasPrefix state strWaitingChannel then StateWaitingChannel
      else if HasPrefix state strWaitingSelect then StateWaitingSelect
      else (let str = ToLower state in
            if HasPrefix str strWaitingGCActivity2 \<or> Contains str strWaitingGCActivity1
            then StateWaitingGCActivity
            else StateOther))"

subsection \<open>The classifier as the specification words it\<close>

text \<open>
  The specification's matching policy, written from its four rules: a fixed table of exact
  matches, three prefix rules, the case-insensitive rule, and the catch-all. It uses the
  library's \<open>prefix\<close> and an existential for "contains", so it shares nothing with the
  embedding of the code but the lowering of a byte.
\<close>

definition exact_table :: "(string \<times> State) list" where
  "exact_table =
     [(''idle'', StateIdle), (''runnable'', StateRunnable), (''running'', StateRunning),
      (''syscall'', StateSysCall), (''waiting'', StateWaiting), (''dead'', StateDead),
      (''enqueue'', StateEnqueue), (''copystack'', StateCopyStack),
      (''sleep'', StateSleeping), (''IO wait'', StateWaitingIO)]"

definition contains_spec :: "string \<Rightarrow> string \<Rightarrow> bool" where
  "contains_spec s sub = (\<exists>pre post. s = pre @ sub @ post)"

definition classify_spec :: "string \<Rightarrow> State" where
  "classify_spec reason =
     (case map_of exact_table reason of
        Some st \<Rightarrow> st
      | None \<Rightarrow>
          if prefix ''sem'' reason then StateWaitingLock
          else if prefix ''chan'' reason then StateWaitingChannel
          else if prefix ''select'' reason then StateWaitingSelect
          else if prefix ''garbage'' (map toLowerByte reason)
                  \<or> contains_spec (map toLowerByte reason) ''gc ''
          then StateWaitingGCActivity
          else StateOther)"

section \<open>Goroutines, filters and conditions\<close>

text \<open>
  \<open>stack.Goroutine\<close> is a struct of the parsing library. The fields kept are the ones
  the package reads or that a user filter is shown in the documentation to read:
  the identifier, the state string (\<open>g.State\<close>), the value of
  \<open>g.Signature.CreatedBy.Func.PkgDotName()\<close> and the \<open>Locked\<close> flag.
\<close>

record Goroutine =
  ID :: int
  State :: string
  CreatedByFunc :: string
  Locked :: bool

definition zeroGoroutine :: Goroutine where
  "zeroGoroutine = \<lparr>ID = 0, State = [], CreatedByFunc = [], Locked = False\<rparr>"

text \<open>
  \<open>Condition.filters\<close> is a \<open>[]interface{}\<close> that only the methods of the package
  append to, and they append values of exactly two function types; \<open>Eval\<close> switches on
  that type. Filters are taken to be pure functions of the goroutines they are shown.
\<close>

datatype Filter =
    FilterByGo "Goroutine \<Rightarrow> bool"
  | FilterByGoes "Goroutine list \<Rightarrow> bool"

text \<open>
  The capacity of \<open>filters\<close> is not a field of the model: \<open>append\<close> on a Go slice gives
  the same sequence whatever the capacity was. \<open>buf\<close> is the byte buffer.
\<close>

record Condition =
  filters :: "Filter list"
  buf :: string

text \<open>Errors a call returns, and the result of a call that may panic instead.\<close>

datatype error = ErrTimeout | ErrParseDump string

datatype 'a outcome = Returns 'a | Panics string

definition defaultFilterSize :: int where "defaultFilterSize = 10"
definition defaultBufSize :: int where "defaultBufSize = 2 ^ 20"

text \<open>\<open>make\<close> panics on a negative length or capacity; its bytes are zero.\<close>

definition NewConditionWithConfig :: "int \<Rightarrow> int \<Rightarrow> Condition outcome" where
  "NewConditionWithConfig filterSize bufSize =
     (if filterSize < 0 then Panics ''makeslice: cap out of range''
      else if bufSize < 0 then Panics ''makeslice: len out of range''
      else Returns \<lparr>filters = [], buf = replicate (nat bufSize) (CHR 0x00)\<rparr>)"

definition addFilterByGo :: "(Goroutine \<Rightarrow> bool) \<Rightarrow> Condition \<Rightarrow> Condition" where
  "addFilterByGo f c = c\<lparr>filters := filters c @ [FilterByGo f]\<rparr>"

definition addFilterByGoes :: "(Goroutine list \<Rightarrow> bool) \<Rightarrow> Condition \<Rightarrow> Condition" where
  "addFilterByGoes f c = c\<lparr>filters := filters c @ [FilterByGoes f]\<rparr>"

definition GT :: "int \<Rightarrow> Condition \<Rightarrow> Condition" where
  "GT v c = c\<lparr>filters := filters c @ [FilterByGoes (\<lambda>gs. int (length gs) > v)]\<rparr>"

definition LT :: "int \<Rightarrow> Condition \<Rightarrow> Condition" where
  "LT v c = c\<lparr>filters := filters c @ [FilterByGoes (\<lambda>gs. int (length gs) < v)]\<rparr>"

definition EQ :: "int \<Rightarrow> Condition \<Rightarrow> Condition" where
  "EQ v c = c\<lparr>filters := filters c @ [FilterByGoes (\<lambda>gs. int (length gs) = v)]\<rparr>"

definition Is :: "State \<Rightarrow> Condition \<Rightarrow> Condition" where
  "Is state c =
     c\<lparr>filters := filters c @ [FilterByGo (\<lambda>g. let cur = NewState (State g) in state = cur)]\<rparr>"

text \<open>The method \<open>Not\<close>; the name \<open>Not\<close> is the negation of HOL.\<close>

definition Not_state :: "State \<Rightarrow> Condition \<Rightarrow> Condition" where
  "Not_state state c =
     c\<lparr>filters := filters c @ [FilterByGo (\<lambda>g. let cur = NewState (State g) in state \<noteq> cur)]\<rparr>"

fun inStates :: "State \<Rightarrow> State list \<Rightarrow> bool" where
  "inStates cur [] = False"
| "inStates cur (s # states) = (if cur = s then True else inStates cur states)"

definition In :: "State list \<Rightarrow> Condition \<Rightarrow> Condition" where
  "In states c =
     c\<lparr>filters := filters c @ [FilterByGo (\<lambda>g. let cur = NewState (State g) in inStates cur states)]\<rparr>"

text \<open>
  \<open>CreatedBy\<close> compiles its pattern with \<open>regexp.MustCompile\<close>, which panics when the
  pattern does not compile. The regular-expression library is a parameter: \<open>compile\<close>
  gives the compiled expression or nothing, \<open>matches\<close> is \<open>re.Match\<close> on the bytes.
\<close>

definition CreatedBy ::
  "(string \<Rightarrow> 're option) \<Rightarrow> ('re \<Rightarrow> string \<Rightarrow> bool) \<Rightarrow> string \<Rightarrow> Condition \<Rightarrow> Condition outcome"
where
  "CreatedBy compile matches fun c =
     (case compile fun of
        None \<Rightarrow> Panics ''regexp: Compile: pattern does not parse''
      | Some re \<Rightarrow>
          Returns (c\<lparr>filters := filters c @ [FilterByGo (\<lambda>g. matches re (CreatedByFunc g))]\<rparr>))"

text \<open>
  The later revision of the file builds a condition from options. \<open>NewCondition\<close> starts
  from the zero \<open>Condition\<close>, whose two slices are \<open>nil\<close> (\<open>None\<close> here), applies the
  options in order, and fills in the defaults for what is still \<open>nil\<close>. A slice that
  \<open>make\<close> returned is never \<open>nil\<close>, also when its length is zero.
\<close>

datatype Option = WithFilterSize int | WithBufSize int

fun applyOption ::
  "Option \<Rightarrow> Filter list option \<times> string option \<Rightarrow> (Filter list option \<times> string option) outcome"
where
  "applyOption (WithFilterSize fs) (f, b) =
     (if fs < 0 then Panics ''makeslice: cap out of range'' else Returns (Some [], b))"
| "applyOption (WithBufSize bs) (f, b) =
     (if bs < 0 then Panics ''makeslice: len out of range''
      else Returns (f, Some (replicate (nat bs) (CHR 0x00))))"

fun applyOptions ::
  "Option list \<Rightarrow> Filter list option \<times> string option \<Rightarrow> (Filter list option \<times> string option) outcome"
where
  "applyOptions [] c = Returns c"
| "applyOptions (opt # opts) c =
     (case applyOption opt c of Panics m \<Rightarrow> Panics m | Returns c' \<Rightarrow> applyOptions opts c')"

definition NewCondition :: "Option list \<Rightarrow> Condition outcome" where
  "NewCondition opts =
     (case applyOptions opts (None, None) of
        Panics m \<Rightarrow> Panics m
      | Returns (f, b) \<Rightarrow>
          Returns \<lparr>filters = (case f of None \<Rightarrow> [] | Some fs \<Rightarrow> fs),
                   buf = (case b of None \<Rightarrow> replicate (nat defaultBufSize) (CHR 0x00)
                          | Some bytes \<Rightarrow> bytes)\<rparr>)"

section \<open>Eval\<close>

subsection \<open>The runtime and the parser\<close>

text \<open>
  \<open>runtime.Stack\<close> and \<open>stack.ParseDump\<close> are not code of the package; they are the
  two fields of a \<open>runtime\<close>. \<open>Stack rt l\<close> is the text \<open>runtime.Stack(buf, true)\<close>
  writes into a buffer of \<open>l\<close> bytes (the call returns its length), \<open>ParseDump rt\<close>
  gives the goroutines of a dump or the message of the parse error. During one \<open>Eval\<close>
  the runtime is one value: the goroutines do not move between two calls of \<open>Stack\<close>.
\<close>

record runtime =
  Stack :: "nat \<Rightarrow> string"
  ParseDump :: "string \<Rightarrow> string + Goroutine list"

text \<open>What the Go runtime does: it writes as much of the dump as the buffer holds.\<close>

definition goRuntime :: "string \<Rightarrow> (string \<Rightarrow> string + Goroutine list) \<Rightarrow> runtime" where
  "goRuntime dump parse = \<lparr>Stack = (\<lambda>l. take l dump), ParseDump = parse\<rparr>"

text \<open>
  The capture loop. It has no bound: when the call fills the buffer it allocates one of
  twice the size and tries again. A run that never leaves the loop is \<open>None\<close>.
  The result is \<open>n\<close> and the buffer as the last call left it; a call cannot change
  the length of the buffer, whatever \<open>n\<close> it reports.
  Lengths are natural numbers: a buffer whose doubled length would overflow a Go \<open>int\<close>
  does not fit in memory.
\<close>

partial_function (option) captureLoop :: "(nat \<Rightarrow> string) \<Rightarrow> string \<Rightarrow> (nat \<times> string) option" where
  "captureLoop stack b =
     (let w = stack (length b); n = length w in
      if n = length b then captureLoop stack (replicate (n * 2) (CHR 0x00))
      else Some (n, take (length b) w @ drop n b))"

declare captureLoop.simps [code]

subsection \<open>Slices of goroutines on a heap\<close>

text \<open>
  \<open>Eval\<close> filters in place: after the first unit filter, \<open>gs\<close> and \<open>ngs\<close> are slices
  of the same backing array, read and written in the same loop. The arrays therefore
  live on a heap (a list of arrays, an address is an index), and a slice is an address
  and a length; its capacity is the length of the array. All slices here start at
  offset zero.
\<close>

type_synonym heap = "Goroutine list list"

record slice =
  sl_arr :: nat
  sl_len :: nat

definition makeSlice :: "heap \<Rightarrow> nat \<Rightarrow> nat \<Rightarrow> slice \<times> heap" where
  "makeSlice h l c = (\<lparr>sl_arr = length h, sl_len = l\<rparr>, h @ [replicate c zeroGoroutine])"

definition capOf :: "heap \<Rightarrow> slice \<Rightarrow> nat" where
  "capOf h s = length (h ! sl_arr s)"

definition contents :: "heap \<Rightarrow> slice \<Rightarrow> Goroutine list" where
  "contents h s = take (sl_len s) (h ! sl_arr s)"

definition index :: "heap \<Rightarrow> slice \<Rightarrow> nat \<Rightarrow> Goroutine" where
  "index h s i = (h ! sl_arr s) ! i"

text \<open>
  \<open>append(s, g)\<close> writes in place while the capacity lasts; a full slice is copied to a
  new array (whose spare capacity is not modelled: \<open>Eval\<close> never gets there, see
  \<open>rangeLoop_spec\<close>).
\<close>

definition appendSlice :: "heap \<Rightarrow> slice \<Rightarrow> Goroutine \<Rightarrow> slice \<times> heap" where
  "appendSlice h s g =
     (if sl_len s < capOf h s
      then (s\<lparr>sl_len := sl_len s + 1\<rparr>, h[sl_arr s := (h ! sl_arr s)[sl_len s := g]])
      else (\<lparr>sl_arr = length h, sl_len = sl_len s + 1\<rparr>, h @ [contents h s @ [g]]))"

text \<open>
  \<open>for _, g := range gs { if f(&g) { ngs = append(ngs, g) } }\<close>: the range expression
  is evaluated once, so the address and the length of \<open>gs\<close> are fixed; \<open>g\<close> is a copy
  of the element read from the heap as it is at step \<open>i\<close>.
\<close>

function rangeLoop :: "(Goroutine \<Rightarrow> bool) \<Rightarrow> slice \<Rightarrow> nat \<Rightarrow> slice \<Rightarrow> heap \<Rightarrow> slice \<times> heap" where
  "rangeLoop f gs i ngs h =
     (if i < sl_len gs
      then (let g = index h gs i in
            if f g
            then (case appendSlice h ngs g of (ngs', h') \<Rightarrow> rangeLoop f gs (i + 1) ngs' h')
            else rangeLoop f gs (i + 1) ngs h)
      else (ngs, h))"
  by pat_completeness auto
termination
  by (relation "measure (\<lambda>(f, gs, i, ngs, h). sl_len gs - i)") auto

declare rangeLoop.simps [simp del]

text \<open>
  The loop over the filters. \<open>None\<close> is the early \<open>return nil, nil\<close>; \<open>Some\<close> is the
  slice \<open>gs\<close> at the final \<open>return gs, nil\<close>. The outer \<open>ngs\<close> never changes: the
  unit case declares a new \<open>ngs\<close> from \<open>ngs[:0]\<close> each time.
\<close>

fun filterLoop :: "Filter list \<Rightarrow> slice \<Rightarrow> slice \<Rightarrow> heap \<Rightarrow> (slice \<times> heap) option" where
  "filterLoop [] gs ngs h = Some (gs, h)"
| "filterLoop (FilterByGo f # fs) gs ngs h =
     (case rangeLoop f gs 0 (ngs\<lparr>sl_len := 0\<rparr>) h of
        (ngs', h') \<Rightarrow> if sl_len ngs' = 0 then None else filterLoop fs ngs' ngs h')"
| "filterLoop (FilterByGoes f # fs) gs ngs h =
     (if \<not> f (contents h gs) then None else filterLoop fs gs ngs h)"

text \<open>
  The second half of \<open>Eval\<close>, from the parsed goroutines on: the parsed slice is the
  first array of the heap, \<open>make([]stack.Goroutine, 0, len(gs))\<close> the second. The
  value is what the caller can read of the returned slice.
\<close>

definition applyFilters :: "Filter list \<Rightarrow> Goroutine list \<Rightarrow> Goroutine list option" where
  "applyFilters fs parsed =
     (let h0 = [parsed];
          gs = \<lparr>sl_arr = 0, sl_len = length parsed\<rparr>
      in case makeSlice h0 0 (length parsed) of
           (ngs, h1) \<Rightarrow> map_option (\<lambda>(s, h). contents h s) (filterLoop fs gs ngs h1))"

text \<open>
  \<open>Eval\<close>. \<open>None\<close>: the capture loop never ends. A panic: \<open>c.buf[:n]\<close> with \<open>n\<close> beyond
  the buffer. Otherwise the pair the method returns (\<open>nil\<close> is the empty list) and the
  condition with the buffer as the call left it.
\<close>

definition Eval ::
  "runtime \<Rightarrow> Condition \<Rightarrow> ((Goroutine list \<times> error option) \<times> Condition) outcome option"
where
  "Eval rt c =
     (case captureLoop (Stack rt) (buf c) of
        None \<Rightarrow> None
      | Some (n, b) \<Rightarrow>
          Some (if n > length b then Panics ''slice bounds out of range''
                else (case ParseDump rt (take n b) of
                        Inl err \<Rightarrow> Returns (([], Some (ErrParseDump err)), c\<lparr>buf := b\<rparr>)
                      | Inr gs \<Rightarrow>
                          (case applyFilters (filters c) gs of
                             None \<Rightarrow> Returns (([], None), c\<lparr>buf := b\<rparr>)
                           | Some res \<Rightarrow> Returns ((res, None), c\<lparr>buf := b\<rparr>)))))"

text \<open>
  The first half of \<open>Eval\<close> on its own, to name the snapshot a call works on: the
  goroutines \<open>ParseDump\<close> returned and the buffer after the capture, when the capture
  ends, \<open>n\<close> is within the buffer and the dump parses.
\<close>

definition snapshot :: "runtime \<Rightarrow> Condition \<Rightarrow> (Goroutine list \<times> string) option" where
  "snapshot rt c =
     (case captureLoop (Stack rt) (buf c) of
        None \<Rightarrow> None
      | Some (n, b) \<Rightarrow>
          if n > length b then None
          else (case ParseDump rt (take n b) of Inl err \<Rightarrow> None | Inr gs \<Rightarrow> Some (gs, b)))"

section \<open>Wait\<close>

text \<open>
  \<open>Wait\<close> polls. What it observes of the world at poll \<open>i\<close> (counted from zero) is the
  runtime its \<open>i\<close>-th call of \<open>Eval\<close> sees, \<open>world i\<close>, and the reading
  \<open>time.Now().Sub(start)\<close> it takes after that call, \<open>elapsed i\<close>, a \<open>time.Duration\<close>
  (an integer number of nanoseconds). The clock is read only when \<open>timeout > 0\<close> and
  the call came back empty. \<open>runtime.Gosched()\<close> changes nothing the method can see.
  The loop has no bound, so a run that polls forever is \<open>None\<close>.
\<close>

partial_function (option) waitLoop ::
  "(nat \<Rightarrow> runtime) \<Rightarrow> (nat \<Rightarrow> int) \<Rightarrow> int \<Rightarrow> nat \<Rightarrow> Condition
     \<Rightarrow> ((Goroutine list \<times> error option) \<times> Condition) outcome option"
where
  "waitLoop world elapsed timeout i c =
     (case Eval (world i) c of
        None \<Rightarrow> None
      | Some (Panics m) \<Rightarrow> Some (Panics m)
      | Some (Returns ((gs, err), c')) \<Rightarrow>
          (case err of
             Some e \<Rightarrow> Some (Returns (([], Some e), c'))
           | None \<Rightarrow>
               if length gs > 0 then Some (Returns ((gs, None), c'))
               else if timeout > 0 \<and> elapsed i > timeout
                    then Some (Returns (([], Some ErrTimeout), c'))
                    else waitLoop world elapsed timeout (i + 1) c'))"

declare waitLoop.simps [code]

definition Wait ::
  "(nat \<Rightarrow> runtime) \<Rightarrow> (nat \<Rightarrow> int) \<Rightarrow> int \<Rightarrow> Condition
     \<Rightarrow> ((Goroutine list \<times> error option) \<times> Condition) outcome option"
where
  "Wait world elapsed timeout c = waitLoop world elapsed timeout 0 c"

section \<open>Reference functions\<close>

text \<open>
  What the filter loop computes, on plain lists: a unit filter keeps the goroutines it
  accepts and gives up when none is left, a set filter looks at the candidates and
  either keeps them all or gives up. \<open>applyFilters_narrow\<close> proves the loop on the
  heap equal to it; the proofs about \<open>Eval\<close> go through that lemma.
\<close>

fun narrow :: "Filter list \<Rightarrow> Goroutine list \<Rightarrow> Goroutine list option" where
  "narrow [] gs = Some gs"
| "narrow (FilterByGo f # fs) gs =
     (if filter f gs = [] then None else narrow fs (filter f gs))"
| "narrow (FilterByGoes f # fs) gs = (if f gs then narrow fs gs else None)"

text \<open>What a caller sees of a call: the pair it returns, without the condition.\<close>

definition results :: "(('a \<times> Condition) outcome) option \<Rightarrow> 'a outcome option" where
  "results r = map_option (map_outcome fst) r"

section \<open>Concrete inputs\<close>

text \<open>
  A process with two goroutines, one running and one asleep, whose dump has fourteen
  bytes and parses only when it is whole; a runtime whose dump has three bytes; a
  condition without filters over a buffer of four bytes.
\<close>

definition goroutineA :: Goroutine where
  "goroutineA = \<lparr>ID = 1, State = ''running'', CreatedByFunc = ''main.main'', Locked = False\<rparr>"

definition goroutineB :: Goroutine where
  "goroutineB = \<lparr>ID = 2, State = ''sleep'', CreatedByFunc = ''main.worker'', Locked = False\<rparr>"

definition exampleRuntime :: runtime where
  "exampleRuntime =
     goRuntime ''goroutine dump''
       (\<lambda>bytes. if bytes = ''goroutine dump'' then Inr [goroutineA, goroutineB]
                else Inl ''truncated dump'')"

definition shortRuntime :: runtime where
  "shortRuntime = goRuntime ''abc'' (\<lambda>bytes. Inr [goroutineA])"

definition exampleCondition :: Condition where
  "exampleCondition = \<lparr>filters = [], buf = replicate 4 (CHR 0x00)\<rparr>"

text \<open>Two unit predicates: the one \<open>Is(StateRunning)\<close> adds, and a user filter.\<close>

definition isRunning :: "Goroutine \<Rightarrow> bool" where
  "isRunning g = (let cur = NewState (State g) in StateRunning = cur)"

definition notLocked :: "Goroutine \<Rightarrow> bool" where
  "notLocked g = (\<not> Locked g)"

text \<open>
  A dump collaborator with threshold \<open>S\<close>: it reports the buffer full for every buffer
  shorter than \<open>S\<close>, and strictly less than the buffer for every other one.
\<close>

definition fillsBelow :: "(nat \<Rightarrow> string) \<Rightarrow> nat \<Rightarrow> bool" where
  "fillsBelow stack S =
     (\<forall>l. if l < S then length (stack l) = l else length (stack l) < l)"

section \<open>Observing a run of Wait\<close>

text \<open>
  \<open>isTimeout r\<close>: the call returned the error \<open>ErrTimeout\<close>. \<open>emptyPolls world i m c\<close>:
  the \<open>m\<close> calls of \<open>Eval\<close> at the polls \<open>i\<close>, \<open>i + 1\<close>, ... all returned, each with an
  empty result and a \<open>nil\<close> error; the value is the condition after them.
\<close>

fun isTimeout :: "((Goroutine list \<times> error option) \<times> Condition) outcome option \<Rightarrow> bool" where
  "isTimeout (Some (Returns ((gs, Some ErrTimeout), c))) = True"
| "isTimeout r = False"

fun emptyPolls :: "(nat \<Rightarrow> runtime) \<Rightarrow> nat \<Rightarrow> nat \<Rightarrow> Condition \<Rightarrow> Condition option" where
  "emptyPolls world i 0 c = Some c"
| "emptyPolls world i (Suc m) c =
     (case Eval (world i) c of
        Some (Returns (([], None), c')) \<Rightarrow> emptyPolls world (Suc i) m c'
      | _ \<Rightarrow> None)"

text \<open>
  Worlds for \<open>Wait\<close>: the example process, unchanged from poll to poll; a clock that
  advances by 400 nanoseconds per poll; a condition no goroutine of the example
  satisfies; and a runtime whose dump does not parse.
\<close>

definition idleWorld :: "nat \<Rightarrow> runtime" where
  "idleWorld i = exampleRuntime"

definition exampleClock :: "nat \<Rightarrow> int" where
  "exampleClock i = int i * 400"

definition neverCondition :: Condition where
  "neverCondition = Is StateDead exampleCondition"

definition brokenRuntime :: runtime where
  "brokenRuntime = goRuntime ''goroutine dump'' (\<lambda>bytes. Inl ''unexpected line'')"

text \<open>
  A stand-in for the regular-expression library, right on the patterns used with it
  below: the pattern \<open>(\<close> does not compile, and a pattern of letters is searched for
  anywhere in the text.
\<close>

definition literalCompile :: "string \<Rightarrow> string option" where
  "literalCompile pattern = (if pattern = ''('' then None else Some pattern)"

definition literalMatch :: "string \<Rightarrow> string \<Rightarrow> bool" where
  "literalMatch re s = Contains s re"


section \<open>Properties of the classifier\<close>

lemma HasPrefix_iff_prefix: "HasPrefix s p = prefix p s"
  unfolding HasPrefix_def prefix_def
  by (metis append_eq_conv_conj append_take_drop_id le_add1 length_append)

lemma Contains_iff: "Contains s sub = contains_spec s sub"
proof (induction s)
  case Nil
  show ?case by (auto simp: contains_spec_def)
next
  case (Cons c cs)
  have "contains_spec (c # cs) sub \<longleftrightarrow> prefix sub (c # cs) \<or> contains_spec cs sub"
  proof
    assume "contains_spec (c # cs) sub"
    then obtain pre post where eq: "c # cs = pre @ sub @ post"
      by (auto simp: contains_spec_def)
    show "prefix sub (c # cs) \<or> contains_spec cs sub"
    proof (cases pre)
      case Nil
      with eq show ?thesis by (simp add: prefix_def)
    next
      case (Cons a pre')
      with eq have "cs = pre' @ sub @ post" by simp
      then show ?thesis by (auto simp: contains_spec_def)
    qed
  next
    assume "prefix sub (c # cs) \<or> contains_spec cs sub"
    then show "contains_spec (c # cs) sub"
    proof
      assume "prefix sub (c # cs)"
      then obtain post where "c # cs = [] @ sub @ post" by (auto simp: prefix_def)
      then show ?thesis unfolding contains_spec_def by blast
    next
      assume "contains_spec cs sub"
      then obtain pre post where "cs = pre @ sub @ post" by (auto simp: contains_spec_def)
      then have "c # cs = (c # pre) @ sub @ post" by simp
      then show ?thesis unfolding contains_spec_def by blast
    qed
  qed
  with Cons show ?case by (simp add: HasPrefix_iff_prefix)
qed

lemma NewState_refines: "NewState s = classify_spec s"
  unfolding NewState_def classify_spec_def exact_table_def str_defs ToLower_def Let_def
    HasPrefix_iff_prefix Contains_iff
  by (simp add: prefix_def)



text \<open>
  Claim C3. \<open>NewState\<close> is a total function on strings that applies, first match
  winning, the exact table, then the three prefix rules, then the rule on the lowered
  string, and otherwise answers \<open>StateOther\<close>: it is equal, on every string, to the
  matching policy as the specification words it. On each string of the corpus of known
  wait reasons it returns the documented state, and \<open>panicwait\<close> gives \<open>StateOther\<close>.
\<close>

theorem NewState_classifies:
  "NewState reason = classify_spec reason \<and>
   map NewState
     [''idle'', ''runnable'', ''running'', ''syscall'', ''waiting'', ''dead'', ''enqueue'',
      ''copystack'', ''sleep'', ''chan send'', ''chan receive'', ''select'',
      ''select (no cases)'', ''IO wait'', ''semacquire'', ''semrelease'', ''GC sweep wait'',
      ''GC assist wait'', ''force gc (idle)'', ''garbage collection'', ''panicwait'']
   = [StateIdle, StateRunnable, StateRunning, StateSysCall, StateWaiting, StateDead,
      StateEnqueue, StateCopyStack, StateSleeping, StateWaitingChannel, StateWaitingChannel,
      StateWaitingSelect, StateWaitingSelect, StateWaitingIO, StateWaitingLock,
      StateWaitingLock, StateWaitingGCActivity, StateWaitingGCActivity,
      StateWaitingGCActivity, StateWaitingGCActivity, StateOther]"
proof
  show "NewState reason = classify_spec reason"
    by (rule NewState_refines)
next
  show "map NewState
     [''idle'', ''runnable'', ''running'', ''syscall'', ''waiting'', ''dead'', ''enqueue'',
      ''copystack'', ''sleep'', ''chan send'', ''chan receive'', ''select'',
      ''select (no cases)'', ''IO wait'', ''semacquire'', ''semrelease'', ''GC sweep wait'',
      ''GC assist wait'', ''force gc (idle)'', ''garbage collection'', ''panicwait'']
   = [StateIdle, StateRunnable, StateRunning, StateSysCall, StateWaiting, StateDead,
      StateEnqueue, StateCopyStack, StateSleeping, StateWaitingChannel, StateWaitingChannel,
      StateWaitingSelect, StateWaitingSelect, StateWaitingIO, StateWaitingLock,
      StateWaitingLock, StateWaitingGCActivity, StateWaitingGCActivity,
      StateWaitingGCActivity, StateWaitingGCActivity, StateOther]"
    by code_simp
qed

section \<open>The filter loop on the heap computes a plain filter\<close>

text \<open>
  One pass of the inner loop. Reading from \<open>gs\<close> at \<open>i\<close> while appending to \<open>ngs\<close> is
  safe when the two slices share their array, because a write never lands beyond the
  read position; and \<open>append\<close> never reallocates, because \<open>ngs\<close> has room for what is
  left of \<open>gs\<close>.
\<close>

lemma rangeLoop_spec:
  assumes "sl_arr ngs < length h" "sl_arr gs < length h"
    and "i \<le> sl_len gs" "sl_len gs \<le> length (h ! sl_arr gs)"
    and "sl_len ngs + (sl_len gs - i) \<le> length (h ! sl_arr ngs)"
    and "sl_arr gs = sl_arr ngs \<longrightarrow> sl_len ngs \<le> i"
    and "rangeLoop f gs i ngs h = (ngs', h')"
  shows "sl_arr ngs' = sl_arr ngs \<and> length h' = length h
       \<and> length (h' ! sl_arr ngs) = length (h ! sl_arr ngs)
       \<and> sl_len ngs' = sl_len ngs + length (filter f (drop i (take (sl_len gs) (h ! sl_arr gs))))
       \<and> take (sl_len ngs') (h' ! sl_arr ngs)
           = take (sl_len ngs) (h ! sl_arr ngs) @ filter f (drop i (take (sl_len gs) (h ! sl_arr gs)))
       \<and> (\<forall>a. a \<noteq> sl_arr ngs \<longrightarrow> h' ! a = h ! a)"
  using assms
proof (induction f gs i ngs h rule: rangeLoop.induct)
  case (1 f gs i ngs h)
  let ?an = "sl_arr ngs" and ?ag = "sl_arr gs"
  show ?case
  proof (cases "i < sl_len gs")
    case False
    then have "rangeLoop f gs i ngs h = (ngs, h)" by (simp add: rangeLoop.simps[of f gs i])
    with "1.prems"(7) have "ngs' = ngs" "h' = h" by simp_all
    with False "1.prems"(3) show ?thesis by simp
  next
    case True
    define g where "g = index h gs i"
    have g_nth: "g = (h ! ?ag) ! i" by (simp add: g_def index_def)
    have dropi: "drop i (take (sl_len gs) (h ! ?ag)) = g # drop (Suc i) (take (sl_len gs) (h ! ?ag))"
    proof -
      have "i < length (take (sl_len gs) (h ! ?ag))" using True "1.prems"(4) by simp
      from Cons_nth_drop_Suc[OF this, symmetric] show ?thesis
        using True by (simp add: g_nth)
    qed
    show ?thesis
    proof (cases "f g")
      case False
      have rl: "rangeLoop f gs (i + 1) ngs h = (ngs', h')"
        using "1.prems"(7) True False by (simp add: g_def rangeLoop.simps[of f gs i])
      have pre: "sl_arr ngs < length h" "sl_arr gs < length h" "i + 1 \<le> sl_len gs"
        "sl_len gs \<le> length (h ! sl_arr gs)"
        "sl_len ngs + (sl_len gs - (i + 1)) \<le> length (h ! sl_arr ngs)"
        "sl_arr gs = sl_arr ngs \<longrightarrow> sl_len ngs \<le> i + 1"
        using "1.prems" True by auto
      have fd: "filter f (drop i (take (sl_len gs) (h ! ?ag)))
                = filter f (drop (i + 1) (take (sl_len gs) (h ! ?ag)))"
        using dropi False by simp
      show ?thesis
        unfolding fd using "1.IH"(2)[OF True g_def False pre rl] .
    next
      case fg: True
      have room: "sl_len ngs < length (h ! ?an)"
        using "1.prems"(5) True by linarith
      define ngs1 where "ngs1 = ngs\<lparr>sl_len := sl_len ngs + 1\<rparr>"
      define h1 where "h1 = h[?an := (h ! ?an)[sl_len ngs := g]]"
      have app: "appendSlice h ngs g = (ngs1, h1)"
        using room by (simp add: appendSlice_def capOf_def ngs1_def h1_def)
      have rl: "rangeLoop f gs (i + 1) ngs1 h1 = (ngs', h')"
        using "1.prems"(7) True fg app by (simp add: g_def[symmetric] rangeLoop.simps[of f gs i])
      have h1n: "h1 ! ?an = (h ! ?an)[sl_len ngs := g]"
        using "1.prems"(1) by (simp add: h1_def)
      have h1g: "drop (Suc i) (take (sl_len gs) (h1 ! ?ag)) = drop (Suc i) (take (sl_len gs) (h ! ?ag))"
      proof (cases "?ag = ?an")
        case True
        then have "sl_len ngs \<le> i" using "1.prems"(6) by simp
        then show ?thesis using True h1n
          by (simp add: drop_take drop_update_cancel)
      next
        case False
        then show ?thesis by (simp add: h1_def)
      qed
      have len1: "length (h1 ! ?ag) = length (h ! ?ag)"
        by (cases "?ag = ?an") (simp_all add: h1n, simp add: h1_def)
      have pre: "sl_arr ngs1 < length h1" "sl_arr gs < length h1" "i + 1 \<le> sl_len gs"
        "sl_len gs \<le> length (h1 ! sl_arr gs)"
        "sl_len ngs1 + (sl_len gs - (i + 1)) \<le> length (h1 ! sl_arr ngs1)"
        "sl_arr gs = sl_arr ngs1 \<longrightarrow> sl_len ngs1 \<le> i + 1"
        using "1.prems" True len1 h1n by (auto simp: ngs1_def h1_def)
      have IH: "sl_arr ngs' = sl_arr ngs1" "length h' = length h1"
        "length (h' ! sl_arr ngs1) = length (h1 ! sl_arr ngs1)"
        "sl_len ngs' = sl_len ngs1 + length (filter f (drop (i+1) (take (sl_len gs) (h1 ! sl_arr gs))))"
        "take (sl_len ngs') (h' ! sl_arr ngs1)
           = take (sl_len ngs1) (h1 ! sl_arr ngs1) @ filter f (drop (i+1) (take (sl_len gs) (h1 ! sl_arr gs)))"
        "\<forall>a. a \<noteq> sl_arr ngs1 \<longrightarrow> h' ! a = h1 ! a"
        using "1.IH"(1)[OF True g_def fg app[symmetric] pre rl] by blast+
      have an1: "sl_arr ngs1 = ?an" by (simp add: ngs1_def)
      have ln1: "sl_len ngs1 = sl_len ngs + 1" by (simp add: ngs1_def)
      have tk: "take (sl_len ngs1) (h1 ! ?an) = take (sl_len ngs) (h ! ?an) @ [g]"
        using room by (simp add: ngs1_def h1n take_Suc_conv_app_nth)
      have fd: "filter f (drop i (take (sl_len gs) (h ! ?ag)))
                = g # filter f (drop (i + 1) (take (sl_len gs) (h ! ?ag)))"
        using dropi fg by simp
      have h1g': "drop (i + 1) (take (sl_len gs) (h1 ! ?ag)) = drop (i + 1) (take (sl_len gs) (h ! ?ag))"
        using h1g by simp
      have c1: "sl_arr ngs' = ?an" using IH(1) an1 by simp
      have c2: "length h' = length h" using IH(2) by (simp add: h1_def)
      have c3: "length (h' ! ?an) = length (h ! ?an)" using IH(3) an1 h1n by simp
      have c4: "sl_len ngs' = sl_len ngs + length (filter f (drop i (take (sl_len gs) (h ! ?ag))))"
        unfolding fd using IH(4) ln1 h1g' by simp
      have c5: "take (sl_len ngs') (h' ! ?an)
           = take (sl_len ngs) (h ! ?an) @ filter f (drop i (take (sl_len gs) (h ! ?ag)))"
        unfolding fd using IH(5) an1 tk h1g' by simp
      have c6: "\<forall>a. a \<noteq> ?an \<longrightarrow> h' ! a = h ! a"
        using IH(6) an1 by (simp add: h1_def)
      show ?thesis using c1 c2 c3 c4 c5 c6 by blast
    qed
  qed
qed


lemma filterLoop_narrow:
  assumes "sl_arr ngs < length h" "sl_arr gs < length h"
    and "sl_len gs \<le> length (h ! sl_arr gs)"
    and "sl_len gs \<le> length (h ! sl_arr ngs)"
  shows "map_option (\<lambda>(s, h). contents h s) (filterLoop fs gs ngs h) = narrow fs (contents h gs)"
  using assms
proof (induction fs arbitrary: gs h)
  case Nil
  show ?case by simp
next
  case (Cons x fs)
  show ?case
  proof (cases x)
    case (FilterByGoes f)
    with Cons show ?thesis by simp
  next
    case (FilterByGo f)
    obtain ngs' h' where rl: "rangeLoop f gs 0 (ngs\<lparr>sl_len := 0\<rparr>) h = (ngs', h')"
      by (cases "rangeLoop f gs 0 (ngs\<lparr>sl_len := 0\<rparr>) h")
    let ?n0 = "ngs\<lparr>sl_len := 0\<rparr>"
    have pre: "sl_arr ?n0 < length h" "sl_arr gs < length h" "0 \<le> sl_len gs"
      "sl_len gs \<le> length (h ! sl_arr gs)"
      "sl_len ?n0 + (sl_len gs - 0) \<le> length (h ! sl_arr ?n0)"
      "sl_arr gs = sl_arr ?n0 \<longrightarrow> sl_len ?n0 \<le> 0"
      using Cons.prems by simp_all
    have raw: "sl_arr ngs' = sl_arr ?n0" "length h' = length h"
      "length (h' ! sl_arr ?n0) = length (h ! sl_arr ?n0)"
      "sl_len ngs' = sl_len ?n0 + length (filter f (drop 0 (take (sl_len gs) (h ! sl_arr gs))))"
      "take (sl_len ngs') (h' ! sl_arr ?n0)
         = take (sl_len ?n0) (h ! sl_arr ?n0) @ filter f (drop 0 (take (sl_len gs) (h ! sl_arr gs)))"
      using rangeLoop_spec[OF pre rl] by blast+
    have spec: "sl_arr ngs' = sl_arr ngs" "length h' = length h"
      "length (h' ! sl_arr ngs) = length (h ! sl_arr ngs)"
      "sl_len ngs' = length (filter f (contents h gs))"
      "take (sl_len ngs') (h' ! sl_arr ngs) = filter f (contents h gs)"
      using raw(1) apply simp
      using raw(2) apply simp
      using raw(3) apply simp
      using raw(4) apply (simp add: contents_def)
      using raw(5) apply (simp add: contents_def)
      done
    have cont: "contents h' ngs' = filter f (contents h gs)"
      using spec(1,5) by (simp add: contents_def)
    show ?thesis
    proof (cases "filter f (contents h gs) = []")
      case True
      then show ?thesis using FilterByGo rl spec(4) by simp
    next
      case False
      have le: "sl_len ngs' \<le> length (h ! sl_arr ngs)"
      proof -
        have "length (filter f (contents h gs)) \<le> length (contents h gs)" by simp
        also have "\<dots> \<le> sl_len gs" by (simp add: contents_def)
        finally show ?thesis using spec(4) Cons.prems(4) by simp
      qed
      have "map_option (\<lambda>(s, h). contents h s) (filterLoop fs ngs' ngs h') = narrow fs (contents h' ngs')"
        using Cons.IH[of h' ngs'] Cons.prems spec le by simp
      then show ?thesis using FilterByGo rl spec(4) False cont by simp
    qed
  qed
qed

lemma applyFilters_narrow: "applyFilters fs gs = narrow fs gs"
proof -
  let ?h = "[gs, replicate (length gs) zeroGoroutine]"
  have "map_option (\<lambda>(s, h). contents h s)
          (filterLoop fs \<lparr>sl_arr = 0, sl_len = length gs\<rparr> \<lparr>sl_arr = 1, sl_len = 0\<rparr> ?h)
        = narrow fs (contents ?h \<lparr>sl_arr = 0, sl_len = length gs\<rparr>)"
    by (rule filterLoop_narrow) simp_all
  then show ?thesis
    by (simp add: applyFilters_def makeSlice_def contents_def)
qed

section \<open>Properties of the filter loop\<close>

lemma Eval_snapshot:
  assumes "snapshot rt c = Some (gs, b)"
  shows "Eval rt c = Some (Returns ((case narrow (filters c) gs of None \<Rightarrow> [] | Some res \<Rightarrow> res, None), c\<lparr>buf := b\<rparr>))"
  using assms
  by (auto simp: snapshot_def Eval_def applyFilters_narrow split: option.splits if_splits sum.splits)

lemma narrow_append:
  "narrow (fs @ fs') gs = (case narrow fs gs of None \<Rightarrow> None | Some cs \<Rightarrow> narrow fs' cs)"
proof (induction fs gs rule: narrow.induct)
  case (1 gs) show ?case by simp
next
  case (2 f fs gs) then show ?case by simp
next
  case (3 f fs gs) then show ?case by simp
qed

lemma narrow_subseq: "narrow fs gs = Some cs \<Longrightarrow> subseq cs gs"
proof (induction fs gs rule: narrow.induct)
  case (1 gs) then show ?case by simp
next
  case (2 f fs gs)
  then have "subseq cs (filter f gs)" by (simp split: if_splits)
  then show ?case using subseq_filter_left subseq_order.order_trans by blast
next
  case (3 f fs gs) then show ?case by (simp split: if_splits)
qed

lemma narrow_units:
  "narrow (map FilterByGo us @ post) gs =
     (if us = [] then narrow post gs
      else if filter (\<lambda>g. list_all (\<lambda>p. p g) us) gs = [] then None
      else narrow post (filter (\<lambda>g. list_all (\<lambda>p. p g) us) gs))"
proof (induction us arbitrary: gs)
  case Nil
  show ?case by simp
next
  case (Cons u us)
  have comb: "filter (\<lambda>g. list_all (\<lambda>p. p g) us) (filter u gs)
              = filter (\<lambda>g. list_all (\<lambda>p. p g) (u # us)) gs"
    by (simp add: conj_commute)
  show ?case
  proof (cases "filter u gs = []")
    case True
    then have "filter (\<lambda>g. list_all (\<lambda>p. p g) (u # us)) gs = []"
      by (auto simp: filter_empty_conv)
    with True show ?thesis by simp
  next
    case False
    show ?thesis
    proof (cases "us = []")
      case True
      with False show ?thesis by simp
    next
      case nonempty: False
      have "narrow (map FilterByGo (u # us) @ post) gs = narrow (map FilterByGo us @ post) (filter u gs)"
        using False by simp
      also have "\<dots> = (if filter (\<lambda>g. list_all (\<lambda>p. p g) us) (filter u gs) = [] then None
          else narrow post (filter (\<lambda>g. list_all (\<lambda>p. p g) us) (filter u gs)))"
        using Cons.IH[of "filter u gs"] nonempty by simp
      finally show ?thesis unfolding comb by simp
    qed
  qed
qed

lemma narrow_sets:
  "narrow (map FilterByGoes ss @ post) gs = (if list_all (\<lambda>s. s gs) ss then narrow post gs else None)"
  by (induction ss) simp_all

lemma list_all_mset_cong: "mset xs = mset ys \<Longrightarrow> list_all P xs = list_all P ys"
  by (metis list_all_iff mset_eq_setD)

lemma mset_Nil_cong: "mset xs = mset ys \<Longrightarrow> (xs = []) = (ys = [])"
  by (metis mset_zero_iff)

lemma narrow_units_perm:
  assumes "mset us = mset us'"
  shows "narrow (pre @ map FilterByGo us @ post) gs = narrow (pre @ map FilterByGo us' @ post) gs"
proof -
  have "(\<lambda>g. list_all (\<lambda>p. p g) us) = (\<lambda>g. list_all (\<lambda>p. p g) us')"
    using list_all_mset_cong[OF assms] by auto
  then have "narrow (map FilterByGo us @ post) cs = narrow (map FilterByGo us' @ post) cs" for cs
    unfolding narrow_units using mset_Nil_cong[OF assms] by simp
  then show ?thesis
    unfolding narrow_append[of pre "map FilterByGo us @ post"] narrow_append[of pre "map FilterByGo us' @ post"]
    by (cases "narrow pre gs") simp_all
qed

lemma narrow_sets_perm:
  assumes "mset ss = mset ss'"
  shows "narrow (pre @ map FilterByGoes ss @ post) gs = narrow (pre @ map FilterByGoes ss' @ post) gs"
proof -
  have "narrow (map FilterByGoes ss @ post) cs = narrow (map FilterByGoes ss' @ post) cs" for cs
    unfolding narrow_sets using list_all_mset_cong[OF assms] by simp
  then show ?thesis
    unfolding narrow_append[of pre "map FilterByGoes ss @ post"] narrow_append[of pre "map FilterByGoes ss' @ post"]
    by (cases "narrow pre gs") simp_all
qed


lemma exampleSnapshot:
  "snapshot exampleRuntime exampleCondition
     = Some ([goroutineA, goroutineB], ''goroutine dump'' @ replicate 2 (CHR 0x00))"
  by (simp add: snapshot_def exampleRuntime_def goRuntime_def exampleCondition_def
      captureLoop.simps Let_def)

lemma snapshot_filters: "snapshot rt (c\<lparr>filters := fs\<rparr>) = snapshot rt c"
  by (simp add: snapshot_def)

lemma results_Eval:
  assumes "snapshot rt c = Some (gs, b)"
  shows "results (Eval rt (c\<lparr>filters := fs\<rparr>))
      = Some (Returns (case narrow fs gs of None \<Rightarrow> [] | Some res \<Rightarrow> res, None))"
proof -
  have "snapshot rt (c\<lparr>filters := fs\<rparr>) = Some (gs, b)"
    using assms by (simp add: snapshot_filters)
  from Eval_snapshot[OF this] show ?thesis by (simp add: results_def)
qed

lemma narrow_take:
  assumes "narrow (take k fs) gs = Some cs'" and "j \<le> k"
  shows "\<exists>cs. narrow (take j fs) gs = Some cs \<and> narrow (drop j (take k fs)) cs = Some cs'"
proof -
  have "take k fs = take j fs @ drop j (take k fs)"
    using assms(2) by (metis append_take_drop_id min.absorb1 take_take)
  then have "narrow (take j fs @ drop j (take k fs)) gs = Some cs'"
    using assms(1) by simp
  then show ?thesis
    by (simp add: narrow_append split: option.splits)
qed

section \<open>The capture loop\<close>

lemma captureLoop_full:
  "length (stack (length b)) = length b \<Longrightarrow>
   captureLoop stack b = captureLoop stack (replicate (length b * 2) (CHR 0x00))"
  by (subst captureLoop.simps) (simp add: Let_def)

lemma captureLoop_fits:
  "length (stack (length b)) \<noteq> length b \<Longrightarrow>
   captureLoop stack b
     = Some (length (stack (length b)),
             take (length b) (stack (length b)) @ drop (length (stack (length b))) b)"
  by (subst captureLoop.simps) (simp add: Let_def)

lemma captureLoop_threshold:
  assumes "fillsBelow stack S" and "0 < length b"
  shows "\<exists>k n b'. captureLoop stack b = Some (n, b') \<and> length b' = length b * 2 ^ k
           \<and> n = length (stack (length b')) \<and> n < length b'
           \<and> take n b' = stack (length b')
           \<and> S \<le> length b * 2 ^ k \<and> (\<forall>j<k. length b * 2 ^ j < S)"
  using assms(2)
proof (induction "S - length b" arbitrary: b rule: less_induct)
  case less
  let ?l = "length b"
  show ?case
  proof (cases "?l < S")
    case False
    then have lt: "length (stack ?l) < ?l"
      using assms(1) by (simp add: fillsBelow_def split: if_splits)
    define b' where "b' = take ?l (stack ?l) @ drop (length (stack ?l)) b"
    have cl: "captureLoop stack b = Some (length (stack ?l), b')"
      using lt by (simp add: captureLoop_fits b'_def)
    have len: "length b' = ?l" using lt by (simp add: b'_def)
    have ct: "take (length (stack ?l)) b' = stack (length b')"
      using lt by (simp add: b'_def)
    have "captureLoop stack b = Some (length (stack ?l), b') \<and> length b' = ?l * 2 ^ 0
           \<and> length (stack ?l) = length (stack (length b')) \<and> length (stack ?l) < length b'
           \<and> take (length (stack ?l)) b' = stack (length b')
           \<and> S \<le> ?l * 2 ^ 0 \<and> (\<forall>j<0. ?l * 2 ^ j < S)"
      using cl len lt ct False by simp
    then show ?thesis by blast
  next
    case True
    then have full: "length (stack ?l) = ?l"
      using assms(1) by (simp add: fillsBelow_def split: if_splits)
    let ?b2 = "replicate (?l * 2) (CHR 0x00)"
    have step: "captureLoop stack b = captureLoop stack ?b2"
      using full by (rule captureLoop_full)
    have lb2: "length ?b2 = ?l * 2" by simp
    have "S - ?l * 2 < S - ?l" using True less.prems by arith
    then have "S - length ?b2 < S - ?l" unfolding lb2 .
    moreover have "0 < length ?b2" using less.prems by simp
    ultimately obtain k n b' where IH: "captureLoop stack ?b2 = Some (n, b')"
      "length b' = length ?b2 * 2 ^ k" "n = length (stack (length b'))" "n < length b'"
      "S \<le> length ?b2 * 2 ^ k" "\<forall>j<k. length ?b2 * 2 ^ j < S"
      "take n b' = stack (length b')"
      using less.hyps[of ?b2] by blast
    have all: "\<forall>j<Suc k. ?l * 2 ^ j < S"
    proof (intro allI impI)
      fix j assume "j < Suc k"
      show "?l * 2 ^ j < S"
      proof (cases j)
        case 0
        then show ?thesis using True by simp
      next
        case (Suc j')
        then have "j' < k" using \<open>j < Suc k\<close> by simp
        then have "length ?b2 * 2 ^ j' < S" using IH(6) by simp
        then show ?thesis using Suc by (simp add: mult.assoc)
      qed
    qed
    show ?thesis
      using step IH(1-5,7) all
      by (intro exI[of _ "Suc k"] exI[of _ n] exI[of _ b']) (simp add: mult.assoc)
  qed
qed

lemma rounds_log:
  assumes "0 < (l::nat)" and "S \<le> l * 2 ^ k" and "\<forall>j<k. l * 2 ^ j < S"
  shows "int k = max 0 \<lceil>log 2 (real S / real l)\<rceil>"
proof (cases k)
  case 0
  then have "S \<le> l" using assms(2) by simp
  then have "real S / real l \<le> 1" using assms(1) by simp
  have "log 2 (real S / real l) \<le> 0"
  proof (cases "S = 0")
    case True then show ?thesis by (simp add: log_def)
  next
    case False
    then have "0 < real S / real l" using assms(1) by simp
    then show ?thesis using \<open>real S / real l \<le> 1\<close> by simp
  qed
  then have "\<lceil>log 2 (real S / real l)\<rceil> \<le> 0" by (simp add: ceiling_le_iff)
  then show ?thesis using 0 by simp
next
  case (Suc k')
  then have lo: "l * 2 ^ k' < S" using assms(3) by simp
  then have Spos: "0 < S" by simp
  have x: "0 < real S / real l" using Spos assms(1) by simp
  have "real (l * 2 ^ k') < real S" using lo by (simp only: of_nat_less_iff)
  then have "2 ^ k' < real S / real l"
    using assms(1) by (simp add: pos_less_divide_eq mult.commute)
  then have lower: "real k' < log 2 (real S / real l)"
    by (rule less_log_of_power) simp
  have "real S \<le> real (l * 2 ^ k)" using assms(2) by (simp only: of_nat_le_iff)
  then have "real S / real l \<le> 2 ^ k"
    using assms(1) by (simp add: pos_divide_le_eq mult.commute)
  moreover have "(0::real) < 2 ^ k" by simp
  ultimately have "log 2 (real S / real l) \<le> log 2 (2 ^ k)"
    using x by (subst log_le_cancel_iff) simp_all
  moreover have "log 2 ((2::real) ^ k) = real k" by simp
  ultimately have upper: "log 2 (real S / real l) \<le> real k" by simp
  have "\<lceil>log 2 (real S / real l)\<rceil> = int k"
    using lower upper Suc by (intro ceiling_unique) simp_all
  then show ?thesis by simp
qed

lemma captureLoop_empty_aux:
  assumes "captureLoop stack b = Some r"
  shows "\<not> (b = [] \<and> stack 0 = [])"
proof (rule captureLoop.raw_induct[where P = "\<lambda>st b r. \<not> (b = [] \<and> st 0 = [])", OF _ assms])
  fix cl :: "(nat \<Rightarrow> string) \<Rightarrow> string \<Rightarrow> (nat \<times> string) option" and st b r
  assume IH: "\<And>st b r. cl st b = Some r \<Longrightarrow> \<not> (b = [] \<and> st 0 = [])"
    and body: "(let w = st (length b); n = length w in
                if n = length b then cl st (replicate (n * 2) (CHR 0x00))
                else Some (n, take (length b) w @ drop n b)) = Some r"
  show "\<not> (b = [] \<and> st 0 = [])"
  proof
    assume e: "b = [] \<and> st 0 = []"
    with body have "cl st [] = Some r" by (simp add: Let_def)
    from IH[OF this] e show False by simp
  qed
qed

lemma captureLoop_empty:
  assumes "stack 0 = []"
  shows "captureLoop stack [] = None"
proof (cases "captureLoop stack []")
  case None
  then show ?thesis .
next
  case (Some r)
  from captureLoop_empty_aux[OF Some] assms show ?thesis by simp
qed

lemma Eval_captured:
  assumes "captureLoop (Stack rt) (buf c) = Some (n, b')" and "n < length b'"
  shows "\<exists>r. Eval rt c = Some (Returns (r, c\<lparr>buf := b'\<rparr>))"
  using assms by (auto simp: Eval_def split: sum.splits option.splits)

lemma exampleCapture:
  "captureLoop (Stack exampleRuntime) (buf exampleCondition)
     = Some (14, ''goroutine dump'' @ replicate 2 (CHR 0x00))"
  by (simp add: exampleRuntime_def goRuntime_def exampleCondition_def captureLoop.simps Let_def)

lemma captureLoop_goRuntime:
  assumes "b \<noteq> []"
  shows "\<exists>b'. captureLoop (\<lambda>l. take l dump) b = Some (length dump, b')
            \<and> length dump < length b' \<and> take (length dump) b' = dump"
proof -
  have fb: "fillsBelow (\<lambda>l. take l dump) (Suc (length dump))"
    by (auto simp: fillsBelow_def)
  have pos: "0 < length b" using assms by simp
  from captureLoop_threshold[OF fb pos]
  obtain k n b' where cl: "captureLoop (\<lambda>l. take l dump) b = Some (n, b')"
    and n: "n = length (take (length b') dump)" "n < length b'"
    and ct: "take n b' = take (length b') dump"
    by blast
  have n': "n = length dump" using n by simp
  then have "take (length b') dump = dump" using n(2) by simp
  with cl n' n(2) ct show ?thesis by simp
qed

lemma Eval_goRuntime:
  assumes "buf c \<noteq> []"
  shows "results (Eval (goRuntime dump parse) c)
     = Some (Returns (case parse dump of
                        Inl err \<Rightarrow> ([], Some (ErrParseDump err))
                      | Inr gs \<Rightarrow> (case narrow (filters c) gs of None \<Rightarrow> [] | Some res \<Rightarrow> res, None)))"
proof -
  from captureLoop_goRuntime[OF assms, of dump]
  obtain b' where "captureLoop (\<lambda>l. take l dump) (buf c) = Some (length dump, b')"
    "length dump < length b'" "take (length dump) b' = dump"
    by blast
  then show ?thesis
    by (simp add: Eval_def goRuntime_def results_def applyFilters_narrow
        split: sum.splits option.splits)
qed

section \<open>Eval and the filter loop\<close>

text \<open>
  Claim C5. When the capture ends and the dump parses, a condition without predicates
  returns from \<open>Eval\<close> exactly the parsed goroutines, unfiltered, with a \<open>nil\<close> error.
  In particular, against the Go runtime and from a buffer that is not empty, \<open>Eval\<close>
  returns the goroutines of the whole dump whenever the whole dump parses.
\<close>

theorem Eval_no_filters:
  assumes "filters c = []"
  shows "(snapshot rt c = Some (gs, b) \<longrightarrow> Eval rt c = Some (Returns ((gs, None), c\<lparr>buf := b\<rparr>)))
       \<and> (buf c \<noteq> [] \<and> parse dump = Inr gs \<longrightarrow>
            results (Eval (goRuntime dump parse) c) = Some (Returns (gs, None)))"
proof (intro conjI impI)
  assume "snapshot rt c = Some (gs, b)"
  from Eval_snapshot[OF this] assms
  show "Eval rt c = Some (Returns ((gs, None), c\<lparr>buf := b\<rparr>))" by simp
next
  assume "buf c \<noteq> [] \<and> parse dump = Inr gs"
  then show "results (Eval (goRuntime dump parse) c) = Some (Returns (gs, None))"
    using Eval_goRuntime[of c dump parse] assms by simp
qed

theorem Eval_no_filters_witness:
  "filters exampleCondition = []
   \<and> snapshot exampleRuntime exampleCondition
       = Some ([goroutineA, goroutineB], ''goroutine dump'' @ replicate 2 (CHR 0x00))
   \<and> Eval exampleRuntime exampleCondition
       = Some (Returns (([goroutineA, goroutineB], None),
                 \<lparr>filters = [], buf = ''goroutine dump'' @ replicate 2 (CHR 0x00)\<rparr>))
   \<and> buf exampleCondition \<noteq> []
   \<and> results (Eval (goRuntime ''abc'' (\<lambda>bytes. Inr [goroutineA])) exampleCondition)
       = Some (Returns ([goroutineA], None))"
proof -
  have f: "filters exampleCondition = []" by (simp add: exampleCondition_def)
  have n: "buf exampleCondition \<noteq> []" by (simp add: exampleCondition_def)
  show ?thesis
    using Eval_no_filters[OF f, where rt=exampleRuntime and gs="[goroutineA, goroutineB]"
        and b="''goroutine dump'' @ replicate 2 (CHR 0x00)"]
      Eval_no_filters[OF f, where parse="\<lambda>bytes. Inr [goroutineA]" and dump="''abc''"
        and gs="[goroutineA]"]
      exampleSnapshot f n
    by (simp add: exampleCondition_def)
qed

text \<open>
  Claim C4. Let \<open>x\<close> be a predicate of the condition and \<open>cs\<close> the candidates the
  predicates before it leave. If \<open>x\<close> is a unit predicate that accepts none of \<open>cs\<close>, or a
  set predicate that is false on \<open>cs\<close>, then \<open>Eval\<close> returns the empty result with a
  \<open>nil\<close> error, whatever predicates follow \<open>x\<close>: replacing them by any others leaves
  the result unchanged.
\<close>

theorem Eval_short_circuit:
  assumes "snapshot rt c = Some (gs, b)"
    and "filters c = pre @ [x] @ rest"
    and "applyFilters pre gs = Some cs"
    and "case x of FilterByGo f \<Rightarrow> filter f cs = [] | FilterByGoes f \<Rightarrow> \<not> f cs"
  shows "Eval rt c = Some (Returns (([], None), c\<lparr>buf := b\<rparr>))
       \<and> results (Eval rt (c\<lparr>filters := pre @ [x] @ rest'\<rparr>)) = results (Eval rt c)"
proof -
  have "narrow ([x] @ any) cs = None" for any
    using assms(4) by (cases x) simp_all
  then have rej: "narrow (pre @ [x] @ any) gs = None" for any
    using assms(3) by (simp add: applyFilters_narrow narrow_append[of pre])
  then have "narrow (filters c) gs = None"
    using assms(2) by simp
  then have ev: "Eval rt c = Some (Returns (([], None), c\<lparr>buf := b\<rparr>))"
    using Eval_snapshot[OF assms(1)] by simp
  have "results (Eval rt (c\<lparr>filters := pre @ [x] @ rest'\<rparr>)) = Some (Returns ([], None))"
    using results_Eval[OF assms(1), of "pre @ [x] @ rest'"] rej[of rest'] by simp
  then show ?thesis using ev by (simp add: results_def)
qed

theorem Eval_short_circuit_witness:
  "snapshot exampleRuntime (Is StateDead (Not_state StateSleeping (EQ 2 (Is StateSleeping exampleCondition))))
     = Some ([goroutineA, goroutineB], ''goroutine dump'' @ replicate 2 (CHR 0x00))
   \<and> applyFilters (filters (Is StateSleeping exampleCondition)) [goroutineA, goroutineB]
       = Some [goroutineB]
   \<and> \<not> (int (length [goroutineB]) = 2)
   \<and> Eval exampleRuntime (Is StateDead (Not_state StateSleeping (EQ 2 (Is StateSleeping exampleCondition))))
       = Some (Returns (([], None),
           (Is StateDead (Not_state StateSleeping (EQ 2 (Is StateSleeping exampleCondition))))
             \<lparr>buf := ''goroutine dump'' @ replicate 2 (CHR 0x00)\<rparr>))"
proof -
  let ?c = "Is StateDead (Not_state StateSleeping (EQ 2 (Is StateSleeping exampleCondition)))"
  have snap: "snapshot exampleRuntime ?c
     = Some ([goroutineA, goroutineB], ''goroutine dump'' @ replicate 2 (CHR 0x00))"
    using exampleSnapshot
    by (simp add: snapshot_def Is_def Not_state_def EQ_def)
  have fs: "filters ?c = filters (Is StateSleeping exampleCondition)
      @ [FilterByGoes (\<lambda>gs. int (length gs) = 2)]
      @ [FilterByGo (\<lambda>g. let cur = NewState (State g) in StateSleeping \<noteq> cur),
         FilterByGo (\<lambda>g. let cur = NewState (State g) in StateDead = cur)]"
    by (simp add: Is_def Not_state_def EQ_def)
  have pre: "applyFilters (filters (Is StateSleeping exampleCondition)) [goroutineA, goroutineB]
       = Some [goroutineB]"
    by (simp add: applyFilters_narrow Is_def exampleCondition_def goroutineA_def goroutineB_def
        NewState_def str_defs HasPrefix_def)
  have rej: "case FilterByGoes (\<lambda>gs. int (length gs) = 2) of
        FilterByGo f \<Rightarrow> filter f [goroutineB] = [] | FilterByGoes f \<Rightarrow> \<not> f [goroutineB]"
    by simp
  show ?thesis
    using Eval_short_circuit[OF snap fs pre rej, of "[]"] snap pre by simp
qed

text \<open>
  Claim C8. Within one run of the filter loop of \<open>Eval\<close>, the candidates left after
  the first \<open>k\<close> predicates are a subsequence of the candidates left after the first
  \<open>j \<le> k\<close>, so their number never grows; one unit predicate keeps exactly the
  candidates it accepts, and one set predicate leaves the candidates as they are.
\<close>

theorem candidates_never_grow:
  assumes "applyFilters (take k fs) gs = Some cs'" and "j \<le> k"
  shows "\<exists>cs. applyFilters (take j fs) gs = Some cs \<and> subseq cs' cs \<and> length cs' \<le> length cs
           \<and> (k = Suc j \<and> k \<le> length fs \<longrightarrow>
                (case fs ! j of FilterByGo f \<Rightarrow> cs' = filter f cs | FilterByGoes f \<Rightarrow> cs' = cs))"
proof -
  from narrow_take[OF assms(1)[unfolded applyFilters_narrow] assms(2)]
  obtain cs where cs: "narrow (take j fs) gs = Some cs"
    and step: "narrow (drop j (take k fs)) cs = Some cs'"
    by blast
  have sub: "subseq cs' cs" using narrow_subseq[OF step] .
  have len: "length cs' \<le> length cs" using sub by (rule list_emb_length)
  have one: "case fs ! j of FilterByGo f \<Rightarrow> cs' = filter f cs | FilterByGoes f \<Rightarrow> cs' = cs"
    if "k = Suc j" "k \<le> length fs"
  proof -
    have "drop j (take k fs) = [fs ! j]"
      using that by (simp add: take_Suc_conv_app_nth)
    then have "narrow [fs ! j] cs = Some cs'" using step by simp
    then show ?thesis by (cases "fs ! j") (simp_all split: if_splits)
  qed
  show ?thesis
    using cs sub len one by (auto simp: applyFilters_narrow)
qed

theorem candidates_never_grow_witness:
  "applyFilters (take 2 (filters (Is StateSleeping (GT 1 exampleCondition)))) [goroutineA, goroutineB]
     = Some [goroutineB]
   \<and> applyFilters (take 1 (filters (Is StateSleeping (GT 1 exampleCondition)))) [goroutineA, goroutineB]
     = Some [goroutineA, goroutineB]
   \<and> subseq [goroutineB] [goroutineA, goroutineB]
   \<and> [goroutineB]
       = filter (\<lambda>g. let cur = NewState (State g) in StateSleeping = cur) [goroutineA, goroutineB]"
proof -
  let ?fs = "filters (Is StateSleeping (GT 1 exampleCondition))"
  have fs: "?fs = [FilterByGoes (\<lambda>gs. int (length gs) > 1),
                   FilterByGo (\<lambda>g. let cur = NewState (State g) in StateSleeping = cur)]"
    by (simp add: Is_def GT_def exampleCondition_def)
  have two: "applyFilters (take 2 ?fs) [goroutineA, goroutineB] = Some [goroutineB]"
    unfolding fs
    by (simp add: applyFilters_narrow goroutineA_def goroutineB_def NewState_def str_defs HasPrefix_def)
  have le: "(1::nat) \<le> 2" by simp
  from candidates_never_grow[OF two le]
  obtain cs where cs: "applyFilters (take 1 ?fs) [goroutineA, goroutineB] = Some cs"
    and sub: "subseq [goroutineB] cs"
    and one: "2 = Suc 1 \<and> 2 \<le> length ?fs \<longrightarrow>
                (case ?fs ! 1 of FilterByGo f \<Rightarrow> [goroutineB] = filter f cs | FilterByGoes f \<Rightarrow> [goroutineB] = cs)"
    by blast
  have "applyFilters (take 1 ?fs) [goroutineA, goroutineB] = Some [goroutineA, goroutineB]"
    unfolding fs by (simp add: applyFilters_narrow)
  with cs have eq: "cs = [goroutineA, goroutineB]" by simp
  show ?thesis
    using two cs sub one unfolding eq fs by simp
qed

text \<open>
  Claim C1 as stated fails. With the two goroutines of the example, \<open>EQ(2).Is(Running)\<close>
  returns the running goroutine, while the same two predicates in the other order,
  \<open>Is(Running).EQ(2)\<close>, return nothing: a set predicate counts the candidates left at
  its place in the sequence.
\<close>

theorem Eval_order_counterexample:
  "mset (filters (Is StateRunning (EQ 2 exampleCondition)))
     = mset (filters (EQ 2 (Is StateRunning exampleCondition)))
   \<and> results (Eval exampleRuntime (Is StateRunning (EQ 2 exampleCondition)))
       = Some (Returns ([goroutineA], None))
   \<and> results (Eval exampleRuntime (EQ 2 (Is StateRunning exampleCondition)))
       = Some (Returns ([], None))
   \<and> results (Eval exampleRuntime (Is StateRunning (EQ 2 exampleCondition)))
       \<noteq> results (Eval exampleRuntime (EQ 2 (Is StateRunning exampleCondition)))"
proof -
  have a: "Is StateRunning (EQ 2 exampleCondition)
      = exampleCondition\<lparr>filters := [FilterByGoes (\<lambda>gs. int (length gs) = 2),
           FilterByGo (\<lambda>g. let cur = NewState (State g) in StateRunning = cur)]\<rparr>"
    by (simp add: Is_def EQ_def exampleCondition_def)
  have b: "EQ 2 (Is StateRunning exampleCondition)
      = exampleCondition\<lparr>filters := [FilterByGo (\<lambda>g. let cur = NewState (State g) in StateRunning = cur),
           FilterByGoes (\<lambda>gs. int (length gs) = 2)]\<rparr>"
    by (simp add: Is_def EQ_def exampleCondition_def)
  have st: "NewState (State goroutineA) = StateRunning" "NewState (State goroutineB) = StateSleeping"
    by (simp_all add: goroutineA_def goroutineB_def NewState_def str_defs)
  show ?thesis
    unfolding a b results_Eval[OF exampleSnapshot]
    by (simp add: st)
qed

text \<open>
  Claim C1, amended. Over one snapshot, the result of \<open>Eval\<close> does not change when a
  run of adjacent unit predicates is permuted, nor when a run of adjacent set predicates
  is permuted, whatever stands before and after the run; and a sequence of unit
  predicates alone returns the goroutines of the snapshot that satisfy all of them, in
  the order of the snapshot. (Moving a set predicate across a unit predicate can change
  the result.)
\<close>

theorem Eval_blocks_commute:
  assumes "snapshot rt c = Some (gs, b)"
  shows "(mset us = mset us' \<longrightarrow>
            results (Eval rt (c\<lparr>filters := pre @ map FilterByGo us @ post\<rparr>))
          = results (Eval rt (c\<lparr>filters := pre @ map FilterByGo us' @ post\<rparr>)))
       \<and> (mset ss = mset ss' \<longrightarrow>
            results (Eval rt (c\<lparr>filters := pre @ map FilterByGoes ss @ post\<rparr>))
          = results (Eval rt (c\<lparr>filters := pre @ map FilterByGoes ss' @ post\<rparr>)))
       \<and> results (Eval rt (c\<lparr>filters := map FilterByGo us\<rparr>))
          = Some (Returns (filter (\<lambda>g. list_all (\<lambda>p. p g) us) gs, None))"
proof -
  note ev = results_Eval[OF assms]
  have units: "narrow (map FilterByGo us) gs = narrow (map FilterByGo us @ []) gs" by simp
  have "(case narrow (map FilterByGo us) gs of None \<Rightarrow> [] | Some res \<Rightarrow> res)
        = filter (\<lambda>g. list_all (\<lambda>p. p g) us) gs"
    unfolding units narrow_units by simp
  then show ?thesis
    using narrow_units_perm[of us us' pre post gs] narrow_sets_perm[of ss ss' pre post gs]
    by (simp add: ev)
qed

theorem Eval_blocks_commute_witness:
  "snapshot exampleRuntime exampleCondition
     = Some ([goroutineA, goroutineB], ''goroutine dump'' @ replicate 2 (CHR 0x00))
   \<and> mset [isRunning, notLocked] = mset [notLocked, isRunning]
   \<and> mset [\<lambda>gs. int (length gs) < 5, \<lambda>gs. int (length gs) > 0]
       = mset [\<lambda>gs. int (length gs) > 0, \<lambda>gs. int (length gs) < (5::int)]
   \<and> results (Eval exampleRuntime (exampleCondition\<lparr>filters :=
         [FilterByGoes (\<lambda>gs. int (length gs) = 2)] @ map FilterByGo [isRunning, notLocked]
           @ [FilterByGoes (\<lambda>gs. int (length gs) = 1)]\<rparr>))
       = results (Eval exampleRuntime (exampleCondition\<lparr>filters :=
         [FilterByGoes (\<lambda>gs. int (length gs) = 2)] @ map FilterByGo [notLocked, isRunning]
           @ [FilterByGoes (\<lambda>gs. int (length gs) = 1)]\<rparr>))
   \<and> results (Eval exampleRuntime (exampleCondition\<lparr>filters :=
         [FilterByGoes (\<lambda>gs. int (length gs) = 2)]
           @ map FilterByGoes [\<lambda>gs. int (length gs) < 5, \<lambda>gs. int (length gs) > 0]
           @ [FilterByGoes (\<lambda>gs. int (length gs) = 1)]\<rparr>))
       = results (Eval exampleRuntime (exampleCondition\<lparr>filters :=
         [FilterByGoes (\<lambda>gs. int (length gs) = 2)]
           @ map FilterByGoes [\<lambda>gs. int (length gs) > 0, \<lambda>gs. int (length gs) < 5]
           @ [FilterByGoes (\<lambda>gs. int (length gs) = 1)]\<rparr>))
   \<and> results (Eval exampleRuntime (exampleCondition\<lparr>filters := map FilterByGo [isRunning, notLocked]\<rparr>))
       = Some (Returns ([goroutineA], None))"
proof -
  have m1: "mset [isRunning, notLocked] = mset [notLocked, isRunning]" by simp
  have m2: "mset [\<lambda>gs::Goroutine list. int (length gs) < 5, \<lambda>gs. int (length gs) > 0]
       = mset [\<lambda>gs. int (length gs) > 0, \<lambda>gs. int (length gs) < 5]" by simp
  have ev: "filter (\<lambda>g. list_all (\<lambda>p. p g) [isRunning, notLocked]) [goroutineA, goroutineB] = [goroutineA]"
    by (simp add: isRunning_def notLocked_def goroutineA_def goroutineB_def NewState_def str_defs)
  show ?thesis
    using Eval_blocks_commute[OF exampleSnapshot,
        of "[isRunning, notLocked]" "[notLocked, isRunning]"
           "[FilterByGoes (\<lambda>gs. int (length gs) = 2)]" "[FilterByGoes (\<lambda>gs. int (length gs) = 1)]"
           "[\<lambda>gs. int (length gs) < 5, \<lambda>gs. int (length gs) > 0]"
           "[\<lambda>gs. int (length gs) > 0, \<lambda>gs. int (length gs) < 5]"]
      exampleSnapshot m1 m2 ev
    by simp
qed

section \<open>Eval and the capture loop\<close>

text \<open>
  Claim C7 as stated fails when the initial buffer is at least twice the threshold: a
  dump of three bytes fits a buffer of sixteen at once, after no doubling, while
  \<open>ceil(log2(4/16))\<close> is \<open>-2\<close>.
\<close>

theorem captureLoop_rounds_counterexample:
  "fillsBelow (Stack shortRuntime) 4
   \<and> captureLoop (Stack shortRuntime) (replicate 16 (CHR 0x00))
       = Some (3, ''abc'' @ replicate 13 (CHR 0x00))
   \<and> length (''abc'' @ replicate 13 (CHR 0x00)) = 16 * 2 ^ 0
   \<and> \<lceil>log 2 (real 4 / real 16)\<rceil> = - 2
   \<and> \<not> (int 0 \<le> \<lceil>log 2 (real 4 / real 16)\<rceil>)"
proof -
  have fb: "fillsBelow (Stack shortRuntime) 4"
    by (auto simp: fillsBelow_def shortRuntime_def goRuntime_def)
  have cl: "captureLoop (Stack shortRuntime) (replicate 16 (CHR 0x00))
       = Some (3, ''abc'' @ replicate 13 (CHR 0x00))"
    by (simp add: shortRuntime_def goRuntime_def captureLoop.simps Let_def)
  have "log 2 (real 4 / real 16) = log 2 (1 / 2 ^ 2)" by simp
  also have "\<dots> = - log 2 (2 ^ 2)" by (rule log_recip)
  also have "\<dots> = - 2" using log_pow_cancel[of "2::real" 2] by simp
  finally have lg: "log 2 (real 4 / real 16) = - 2" .
  have "\<lceil>log 2 (real 4 / real 16)\<rceil> = - 2" unfolding lg by simp
  with fb cl show ?thesis by simp
qed

text \<open>
  Claim C7, amended. Against a dump collaborator that fills every buffer shorter than
  \<open>S\<close> and stays strictly below every other one, and from a buffer of positive length,
  the capture loop of \<open>Eval\<close> ends, and \<open>Eval\<close> returns; the buffer it ends with has the
  initial length times \<open>2 ^ k\<close>, each of the \<open>k\<close> doublings was made on a full buffer and
  the last dump is strictly shorter than the last buffer; and \<open>k\<close> is the larger of zero
  and \<open>ceil(log2(S/initialSize))\<close>.
\<close>

theorem captureLoop_rounds:
  assumes "fillsBelow (Stack rt) S" and "0 < length (buf c)"
  shows "\<exists>k n b'. captureLoop (Stack rt) (buf c) = Some (n, b')
           \<and> length b' = length (buf c) * 2 ^ k \<and> n < length b'
           \<and> (\<forall>j<k. length (Stack rt (length (buf c) * 2 ^ j)) = length (buf c) * 2 ^ j)
           \<and> int k = max 0 \<lceil>log 2 (real S / real (length (buf c)))\<rceil>
           \<and> (\<exists>r. Eval rt c = Some (Returns (r, c\<lparr>buf := b'\<rparr>)))"
proof -
  from captureLoop_threshold[OF assms]
  obtain k n b' where cl: "captureLoop (Stack rt) (buf c) = Some (n, b')"
    and len: "length b' = length (buf c) * 2 ^ k" and n: "n < length b'"
    and hi: "S \<le> length (buf c) * 2 ^ k" and lo: "\<forall>j<k. length (buf c) * 2 ^ j < S"
    by blast
  have full: "\<forall>j<k. length (Stack rt (length (buf c) * 2 ^ j)) = length (buf c) * 2 ^ j"
    using lo assms(1) by (auto simp: fillsBelow_def split: if_splits)
  have k: "int k = max 0 \<lceil>log 2 (real S / real (length (buf c)))\<rceil>"
    using rounds_log[OF assms(2) hi lo] .
  from Eval_captured[OF cl n] cl len n full k show ?thesis by blast
qed

theorem captureLoop_rounds_witness:
  "fillsBelow (Stack exampleRuntime) 15 \<and> 0 < length (buf exampleCondition)
   \<and> captureLoop (Stack exampleRuntime) (buf exampleCondition)
       = Some (14, ''goroutine dump'' @ replicate 2 (CHR 0x00))
   \<and> length (''goroutine dump'' @ replicate 2 (CHR 0x00)) = length (buf exampleCondition) * 2 ^ 2
   \<and> int 2 = max 0 \<lceil>log 2 (real 15 / real (length (buf exampleCondition)))\<rceil>"
proof -
  have fb: "fillsBelow (Stack exampleRuntime) 15"
    by (auto simp: fillsBelow_def exampleRuntime_def goRuntime_def)
  have pos: "0 < length (buf exampleCondition)" by (simp add: exampleCondition_def)
  from captureLoop_rounds[OF fb pos]
  obtain k n b' where cl: "captureLoop (Stack exampleRuntime) (buf exampleCondition) = Some (n, b')"
    and len: "length b' = length (buf exampleCondition) * 2 ^ k"
    and k: "int k = max 0 \<lceil>log 2 (real 15 / real (length (buf exampleCondition)))\<rceil>"
    by blast
  from cl exampleCapture have b': "b' = ''goroutine dump'' @ replicate 2 (CHR 0x00)" by simp
  have "(4::nat) * 2 ^ k = 4 * 2 ^ 2" using len unfolding b' by (simp add: exampleCondition_def)
  then have "(2::nat) ^ k = 2 ^ 2" by simp
  then have "k = 2" using power_inject_exp[of "2::nat" k 2] by simp
  with k fb pos exampleCapture show ?thesis by (simp add: exampleCondition_def)
qed

text \<open>
  Claim C2, at the buffer size zero. Both constructors accept the size and build a
  condition with an empty buffer. On it the runtime writes zero bytes, which is the
  length of the buffer, the new buffer has twice zero bytes, and the capture loop never
  ends: \<open>Eval\<close> does not return, and neither does \<open>Wait\<close>, whatever the timeout.
  (For every buffer of positive length \<open>Eval_goRuntime\<close> gives the result of \<open>Eval\<close>,
  which does not depend on the buffer.)
\<close>

theorem Eval_zero_buffer_never_returns:
  "NewConditionWithConfig defaultFilterSize 0 = Returns \<lparr>filters = [], buf = []\<rparr>
   \<and> NewCondition [WithBufSize 0] = Returns \<lparr>filters = [], buf = []\<rparr>
   \<and> Eval (goRuntime dump parse) \<lparr>filters = fs, buf = []\<rparr> = None
   \<and> Wait (\<lambda>i. goRuntime (dumps i) parse) elapsed timeout \<lparr>filters = fs, buf = []\<rparr> = None"
proof -
  have cl: "captureLoop (Stack (goRuntime d parse)) [] = None" for d
    by (rule captureLoop_empty) (simp add: goRuntime_def)
  have ev: "Eval (goRuntime d parse) \<lparr>filters = fs, buf = []\<rparr> = None" for d
    using cl[of d] by (simp add: Eval_def)
  have "Wait (\<lambda>i. goRuntime (dumps i) parse) elapsed timeout \<lparr>filters = fs, buf = []\<rparr> = None"
    unfolding Wait_def by (subst waitLoop.simps) (simp add: ev)
  then show ?thesis
    using ev[of dump]
    by (simp add: NewConditionWithConfig_def NewCondition_def defaultFilterSize_def)
qed

section \<open>The polling loop of Wait\<close>

lemma Eval_error_kind:
  assumes "Eval rt c = Some (Returns ((gs, Some e), c'))"
  shows "gs = [] \<and> e \<noteq> ErrTimeout"
  using assms by (auto simp: Eval_def split: option.splits if_splits sum.splits)

lemma waitLoop_error:
  "Eval (world i) c = Some (Returns ((gs, Some e), c')) \<Longrightarrow>
   waitLoop world elapsed timeout i c = Some (Returns (([], Some e), c'))"
  by (subst waitLoop.simps) simp

lemma waitLoop_found:
  "Eval (world i) c = Some (Returns ((gs, None), c')) \<Longrightarrow> gs \<noteq> [] \<Longrightarrow>
   waitLoop world elapsed timeout i c = Some (Returns ((gs, None), c'))"
  by (subst waitLoop.simps) simp

lemma waitLoop_timeout:
  "Eval (world i) c = Some (Returns (([], None), c')) \<Longrightarrow> 0 < timeout \<Longrightarrow> timeout < elapsed i \<Longrightarrow>
   waitLoop world elapsed timeout i c = Some (Returns (([], Some ErrTimeout), c'))"
  by (subst waitLoop.simps) simp

lemma waitLoop_again:
  "Eval (world i) c = Some (Returns (([], None), c')) \<Longrightarrow> \<not> (0 < timeout \<and> timeout < elapsed i) \<Longrightarrow>
   waitLoop world elapsed timeout i c = waitLoop world elapsed timeout (Suc i) c'"
  by (subst waitLoop.simps) auto

lemma emptyPolls_Suc:
  "emptyPolls world i (Suc m) c \<noteq> None \<Longrightarrow>
   \<exists>c'. Eval (world i) c = Some (Returns (([], None), c')) \<and> emptyPolls world (Suc i) m c' \<noteq> None"
  by (auto split: option.splits outcome.splits list.splits)

lemma timeout_if:
  assumes "emptyPolls world i (Suc k) c \<noteq> None" and "0 < timeout" and "timeout < elapsed (i + k)"
  shows "isTimeout (waitLoop world elapsed timeout i c)"
  using assms
proof (induction k arbitrary: i c)
  case 0
  from emptyPolls_Suc[OF 0(1)] obtain c' where "Eval (world i) c = Some (Returns (([], None), c'))"
    by blast
  from waitLoop_timeout[where world=world and i=i and elapsed=elapsed, OF this 0(2)] 0(3) show ?case by simp
next
  case (Suc k)
  from emptyPolls_Suc[OF Suc.prems(1)] obtain c' where
    ev: "Eval (world i) c = Some (Returns (([], None), c'))"
    and rest: "emptyPolls world (Suc i) (Suc k) c' \<noteq> None"
    by blast
  show ?case
  proof (cases "timeout < elapsed i")
    case True
    from waitLoop_timeout[where world=world and i=i and elapsed=elapsed, OF ev Suc.prems(2) True] show ?thesis by simp
  next
    case False
    then have "waitLoop world elapsed timeout i c = waitLoop world elapsed timeout (Suc i) c'"
      using waitLoop_again[where world=world and i=i, OF ev] by simp
    moreover have "isTimeout (waitLoop world elapsed timeout (Suc i) c')"
      using Suc.IH[OF rest Suc.prems(2)] Suc.prems(3) by simp
    ultimately show ?thesis by simp
  qed
qed


lemma timeout_only_if_aux:
  assumes "waitLoop world elapsed timeout i c = Some r"
  shows "isTimeout (Some r) \<longrightarrow>
           0 < timeout \<and> (\<exists>k. emptyPolls world i (Suc k) c \<noteq> None \<and> timeout < elapsed (i + k))"
proof (rule waitLoop.raw_induct[where P = "\<lambda>world elapsed timeout i c r. isTimeout (Some r) \<longrightarrow>
           0 < timeout \<and> (\<exists>k. emptyPolls world i (Suc k) c \<noteq> None \<and> timeout < elapsed (i + k))",
      OF _ assms])
  fix wl :: "(nat \<Rightarrow> runtime) \<Rightarrow> (nat \<Rightarrow> int) \<Rightarrow> int \<Rightarrow> nat \<Rightarrow> Condition
     \<Rightarrow> ((Goroutine list \<times> error option) \<times> Condition) outcome option"
    and world elapsed timeout i c r
  assume IH: "\<And>world elapsed timeout i c r. wl world elapsed timeout i c = Some r \<Longrightarrow>
      isTimeout (Some r) \<longrightarrow>
        0 < timeout \<and> (\<exists>k. emptyPolls world i (Suc k) c \<noteq> None \<and> timeout < elapsed (i + k))"
    and body: "(case Eval (world i) c of
        None \<Rightarrow> None
      | Some (Panics m) \<Rightarrow> Some (Panics m)
      | Some (Returns ((gs, err), c')) \<Rightarrow>
          (case err of
             Some e \<Rightarrow> Some (Returns (([], Some e), c'))
           | None \<Rightarrow>
               if length gs > 0 then Some (Returns ((gs, None), c'))
               else if timeout > 0 \<and> elapsed i > timeout
                    then Some (Returns (([], Some ErrTimeout), c'))
                    else wl world elapsed timeout (i + 1) c')) = Some r"
  show "isTimeout (Some r) \<longrightarrow>
        0 < timeout \<and> (\<exists>k. emptyPolls world i (Suc k) c \<noteq> None \<and> timeout < elapsed (i + k))"
  proof
    assume to: "isTimeout (Some r)"
    show "0 < timeout \<and> (\<exists>k. emptyPolls world i (Suc k) c \<noteq> None \<and> timeout < elapsed (i + k))"
    proof (cases "Eval (world i) c")
      case None
      with body show ?thesis by simp
    next
      case (Some out)
      show ?thesis
      proof (cases out)
        case (Panics m)
        with Some body to show ?thesis by auto
      next
        case (Returns p)
        obtain gs err c' where p: "p = ((gs, err), c')" by (cases p) auto
        note ev = Some[unfolded Returns p]
        show ?thesis
        proof (cases err)
          case (Some e)
          with ev body have "r = Returns (([], Some e), c')" by simp
          moreover have "e \<noteq> ErrTimeout" using Eval_error_kind ev Some by blast
          ultimately show ?thesis using to by (cases e) simp_all
        next
          case None
          show ?thesis
          proof (cases "gs = []")
            case False
            with ev None body have "r = Returns ((gs, None), c')" by simp
            with to show ?thesis by simp
          next
            case True
            note ev' = ev[unfolded None True]
            show ?thesis
            proof (cases "0 < timeout \<and> timeout < elapsed i")
              case True
              have "emptyPolls world i (Suc 0) c \<noteq> None" using ev' by simp
              with True show ?thesis by (intro conjI exI[of _ 0]) simp_all
            next
              case False
              with ev' body have "wl world elapsed timeout (i + 1) c' = Some r" by auto
              from IH[OF this] to obtain k where pos: "0 < timeout"
                and k: "emptyPolls world (i + 1) (Suc k) c' \<noteq> None" "timeout < elapsed (i + 1 + k)"
                by blast
              have "emptyPolls world i (Suc (Suc k)) c \<noteq> None"
                using ev' k(1) by simp
              moreover have "timeout < elapsed (i + Suc k)" using k(2) by simp
              ultimately show ?thesis using pos by blast
            qed
          qed
        qed
      qed
    qed
  qed
qed

lemma timeout_only_if:
  assumes "isTimeout (waitLoop world elapsed timeout i c)"
  shows "0 < timeout \<and> (\<exists>k. emptyPolls world i (Suc k) c \<noteq> None \<and> timeout < elapsed (i + k))"
proof (cases "waitLoop world elapsed timeout i c")
  case None
  with assms show ?thesis by simp
next
  case (Some r)
  from timeout_only_if_aux[OF Some] assms Some show ?thesis by simp
qed

lemma emptyPolls_shift:
  assumes "\<forall>k. emptyPolls world i k c \<noteq> None"
    and "Eval (world i) c = Some (Returns (([], None), c'))"
  shows "\<forall>k. emptyPolls world (Suc i) k c' \<noteq> None"
proof
  fix k
  from assms(1) have "emptyPolls world i (Suc k) c \<noteq> None" by blast
  with assms(2) show "emptyPolls world (Suc i) k c' \<noteq> None" by simp
qed

lemma waits_forever_aux:
  assumes "waitLoop world elapsed timeout i c = Some r"
  shows "\<not> (timeout \<le> 0 \<and> (\<forall>k. emptyPolls world i k c \<noteq> None))"
proof (rule waitLoop.raw_induct[where P = "\<lambda>world elapsed timeout i c r.
      \<not> (timeout \<le> 0 \<and> (\<forall>k. emptyPolls world i k c \<noteq> None))", OF _ assms])
  fix wl :: "(nat \<Rightarrow> runtime) \<Rightarrow> (nat \<Rightarrow> int) \<Rightarrow> int \<Rightarrow> nat \<Rightarrow> Condition
     \<Rightarrow> ((Goroutine list \<times> error option) \<times> Condition) outcome option"
    and world elapsed timeout i c r
  assume IH: "\<And>world elapsed timeout i c r. wl world elapsed timeout i c = Some r \<Longrightarrow>
      \<not> (timeout \<le> 0 \<and> (\<forall>k. emptyPolls world i k c \<noteq> None))"
    and body: "(case Eval (world i) c of
        None \<Rightarrow> None
      | Some (Panics m) \<Rightarrow> Some (Panics m)
      | Some (Returns ((gs, err), c')) \<Rightarrow>
          (case err of
             Some e \<Rightarrow> Some (Returns (([], Some e), c'))
           | None \<Rightarrow>
               if length gs > 0 then Some (Returns ((gs, None), c'))
               else if timeout > 0 \<and> elapsed i > timeout
                    then Some (Returns (([], Some ErrTimeout), c'))
                    else wl world elapsed timeout (i + 1) c')) = Some r"
  show "\<not> (timeout \<le> 0 \<and> (\<forall>k. emptyPolls world i k c \<noteq> None))"
  proof
    assume a: "timeout \<le> 0 \<and> (\<forall>k. emptyPolls world i k c \<noteq> None)"
    then have "emptyPolls world i (Suc 0) c \<noteq> None" by blast
    from emptyPolls_Suc[OF this] obtain c' where ev: "Eval (world i) c = Some (Returns (([], None), c'))"
      by blast
    with body a have "wl world elapsed timeout (i + 1) c' = Some r" by simp
    moreover have "\<forall>k. emptyPolls world (Suc i) k c' \<noteq> None"
      using a ev by (intro emptyPolls_shift[where world=world and i=i and c=c]) simp_all
    ultimately show False using IH a by fastforce
  qed
qed

lemma waits_forever:
  assumes "timeout \<le> 0" and "\<forall>k. emptyPolls world i k c \<noteq> None"
  shows "waitLoop world elapsed timeout i c = None"
proof (cases "waitLoop world elapsed timeout i c")
  case None
  then show ?thesis .
next
  case (Some r)
  from waits_forever_aux[OF Some] assms show ?thesis by simp
qed

lemma waitLoop_skip:
  assumes "emptyPolls world i m c = Some cm"
    and "\<forall>j<m. \<not> (0 < timeout \<and> timeout < elapsed (i + j))"
  shows "waitLoop world elapsed timeout i c = waitLoop world elapsed timeout (i + m) cm"
  using assms
proof (induction m arbitrary: i c)
  case 0
  then show ?case by simp
next
  case (Suc m)
  then have "emptyPolls world i (Suc m) c \<noteq> None" by simp
  from emptyPolls_Suc[OF this] obtain c' where ev: "Eval (world i) c = Some (Returns (([], None), c'))"
    by blast
  have rest: "emptyPolls world (Suc i) m c' = Some cm" using Suc.prems(1) ev by simp
  have now: "\<not> (0 < timeout \<and> timeout < elapsed i)" using Suc.prems(2) by force
  have later: "\<forall>j<m. \<not> (0 < timeout \<and> timeout < elapsed (Suc i + j))"
    using Suc.prems(2) by force
  have "waitLoop world elapsed timeout i c = waitLoop world elapsed timeout (Suc i) c'"
    using waitLoop_again[where world=world and i=i and elapsed=elapsed, OF ev now] .
  also have "\<dots> = waitLoop world elapsed timeout (Suc i + m) cm"
    using Suc.IH[OF rest later] .
  finally show ?case by simp
qed

lemma Eval_goRuntime_state:
  assumes "buf c \<noteq> []"
  shows "\<exists>b'. b' \<noteq> [] \<and>
     Eval (goRuntime dump parse) c
       = Some (Returns (case parse dump of
                          Inl err \<Rightarrow> ([], Some (ErrParseDump err))
                        | Inr gs \<Rightarrow> (case narrow (filters c) gs of None \<Rightarrow> [] | Some res \<Rightarrow> res, None),
                        c\<lparr>buf := b'\<rparr>))"
proof -
  from captureLoop_goRuntime[OF assms, of dump]
  obtain b' where cl: "captureLoop (\<lambda>l. take l dump) (buf c) = Some (length dump, b')"
    "length dump < length b'" "take (length dump) b' = dump"
    by blast
  then have "b' \<noteq> []" by auto
  moreover have "Eval (goRuntime dump parse) c
       = Some (Returns (case parse dump of
                          Inl err \<Rightarrow> ([], Some (ErrParseDump err))
                        | Inr gs \<Rightarrow> (case narrow (filters c) gs of None \<Rightarrow> [] | Some res \<Rightarrow> res, None),
                        c\<lparr>buf := b'\<rparr>))"
    using cl
    by (simp add: Eval_def goRuntime_def applyFilters_narrow split: sum.splits option.splits)
  ultimately show ?thesis by blast
qed

lemma emptyPolls_goRuntime:
  assumes "buf c \<noteq> []" and "parse dump = Inr gs"
    and "(case narrow (filters c) gs of None \<Rightarrow> [] | Some res \<Rightarrow> res) = []"
  shows "emptyPolls (\<lambda>i. goRuntime dump parse) i k c \<noteq> None"
  using assms
proof (induction k arbitrary: i c)
  case 0
  show ?case by simp
next
  case (Suc k)
  from Eval_goRuntime_state[OF Suc.prems(1), of dump parse]
  obtain b' where b': "b' \<noteq> []"
    and ev: "Eval (goRuntime dump parse) c = Some (Returns (([], None), c\<lparr>buf := b'\<rparr>))"
    using Suc.prems(2,3) by auto
  have "emptyPolls (\<lambda>i. goRuntime dump parse) (Suc i) k (c\<lparr>buf := b'\<rparr>) \<noteq> None"
    using Suc.IH[of "c\<lparr>buf := b'\<rparr>" "Suc i"] b' Suc.prems(2,3) by simp
  then show ?case using ev by simp
qed

lemma idleWorld_eq:
  "idleWorld = (\<lambda>i. goRuntime ''goroutine dump''
       (\<lambda>bytes. if bytes = ''goroutine dump'' then Inr [goroutineA, goroutineB]
                else Inl ''truncated dump''))"
  by (rule ext) (simp add: idleWorld_def exampleRuntime_def)

lemma neverCondition_rejects:
  "(case narrow (filters neverCondition) [goroutineA, goroutineB] of None \<Rightarrow> [] | Some res \<Rightarrow> res) = []"
  by (simp add: neverCondition_def Is_def exampleCondition_def goroutineA_def goroutineB_def
      NewState_def str_defs)

lemma neverCondition_polls: "emptyPolls idleWorld i k neverCondition \<noteq> None"
  unfolding idleWorld_eq
  by (rule emptyPolls_goRuntime[where gs = "[goroutineA, goroutineB]"])
     (simp_all add: neverCondition_rejects, simp add: neverCondition_def Is_def exampleCondition_def)

lemma exampleEval:
  "Eval (idleWorld 0) exampleCondition
     = Some (Returns (([goroutineA, goroutineB], None),
               exampleCondition\<lparr>buf := ''goroutine dump'' @ replicate 2 (CHR 0x00)\<rparr>))"
  using Eval_snapshot[OF exampleSnapshot]
  by (simp add: idleWorld_def exampleCondition_def)

lemma brokenEval:
  "Eval brokenRuntime exampleCondition
     = Some (Returns (([], Some (ErrParseDump ''unexpected line'')),
               exampleCondition\<lparr>buf := ''goroutine dump'' @ replicate 2 (CHR 0x00)\<rparr>))"
  by (simp add: Eval_def brokenRuntime_def goRuntime_def exampleCondition_def
      captureLoop.simps Let_def)

lemma exampleTimeout: "isTimeout (Wait idleWorld exampleClock 1000 neverCondition)"
proof -
  have "emptyPolls idleWorld 0 (Suc 3) neverCondition \<noteq> None" using neverCondition_polls .
  moreover have "1000 < exampleClock (0 + 3)" by (simp add: exampleClock_def)
  ultimately show ?thesis
    unfolding Wait_def using timeout_if[of idleWorld 0 3 neverCondition 1000 exampleClock] by simp
qed

text \<open>
  Claim C6. \<open>Wait\<close> returns \<open>ErrTimeout\<close> exactly when the timeout is positive and
  there is a poll up to which every \<open>Eval\<close> came back empty and without error and
  after which the elapsed time read exceeds the timeout. With a timeout that is not
  positive it never returns \<open>ErrTimeout\<close>, and it polls forever when every \<open>Eval\<close> comes
  back empty. And when, after empty polls during which no timeout was seen, an \<open>Eval\<close>
  returns an error or a non-empty result, \<open>Wait\<close> returns just that, whatever the
  clock reads.
\<close>

theorem Wait_timeout_exactly:
  "(isTimeout (Wait world elapsed timeout c)
      \<longleftrightarrow> 0 < timeout \<and> (\<exists>k. emptyPolls world 0 (Suc k) c \<noteq> None \<and> timeout < elapsed k))
   \<and> (timeout \<le> 0 \<longrightarrow> \<not> isTimeout (Wait world elapsed timeout c))
   \<and> (timeout \<le> 0 \<and> (\<forall>k. emptyPolls world 0 k c \<noteq> None)
        \<longrightarrow> Wait world elapsed timeout c = None)
   \<and> (emptyPolls world 0 m c = Some cm
        \<and> (\<forall>j<m. \<not> (0 < timeout \<and> timeout < elapsed j))
        \<and> Eval (world m) cm = Some (Returns ((gs, err), c'))
        \<and> (err \<noteq> None \<or> gs \<noteq> [])
        \<longrightarrow> Wait world elapsed timeout c
              = Some (Returns ((if err = None then gs else [], err), c')))"
proof (intro conjI)
  show "isTimeout (Wait world elapsed timeout c)
      \<longleftrightarrow> 0 < timeout \<and> (\<exists>k. emptyPolls world 0 (Suc k) c \<noteq> None \<and> timeout < elapsed k)"
  proof
    assume "isTimeout (Wait world elapsed timeout c)"
    then show "0 < timeout \<and> (\<exists>k. emptyPolls world 0 (Suc k) c \<noteq> None \<and> timeout < elapsed k)"
      using timeout_only_if[of world elapsed timeout 0 c] by (simp add: Wait_def)
  next
    assume "0 < timeout \<and> (\<exists>k. emptyPolls world 0 (Suc k) c \<noteq> None \<and> timeout < elapsed k)"
    then show "isTimeout (Wait world elapsed timeout c)"
      using timeout_if[of world 0 _ c timeout elapsed] by (auto simp: Wait_def)
  qed
next
  show "timeout \<le> 0 \<longrightarrow> \<not> isTimeout (Wait world elapsed timeout c)"
    using timeout_only_if[of world elapsed timeout 0 c] by (auto simp: Wait_def)
next
  show "timeout \<le> 0 \<and> (\<forall>k. emptyPolls world 0 k c \<noteq> None)
        \<longrightarrow> Wait world elapsed timeout c = None"
    using waits_forever[of timeout world 0 c elapsed] by (simp add: Wait_def)
next
  show "emptyPolls world 0 m c = Some cm
        \<and> (\<forall>j<m. \<not> (0 < timeout \<and> timeout < elapsed j))
        \<and> Eval (world m) cm = Some (Returns ((gs, err), c'))
        \<and> (err \<noteq> None \<or> gs \<noteq> [])
        \<longrightarrow> Wait world elapsed timeout c
              = Some (Returns ((if err = None then gs else [], err), c'))"
  proof
    assume a: "emptyPolls world 0 m c = Some cm
        \<and> (\<forall>j<m. \<not> (0 < timeout \<and> timeout < elapsed j))
        \<and> Eval (world m) cm = Some (Returns ((gs, err), c'))
        \<and> (err \<noteq> None \<or> gs \<noteq> [])"
    then have skip: "waitLoop world elapsed timeout 0 c = waitLoop world elapsed timeout (0 + m) cm"
      by (intro waitLoop_skip) simp_all
    have "waitLoop world elapsed timeout m cm
            = Some (Returns ((if err = None then gs else [], err), c'))"
    proof (cases err)
      case None
      with a have "gs \<noteq> []" by simp
      with a None show ?thesis
        using waitLoop_found[where world=world and i=m and elapsed=elapsed] by simp
    next
      case (Some e)
      with a show ?thesis
        using waitLoop_error[where world=world and i=m and elapsed=elapsed] by simp
    qed
    with skip show "Wait world elapsed timeout c
              = Some (Returns ((if err = None then gs else [], err), c'))"
      by (simp add: Wait_def)
  qed
qed

theorem Wait_timeout_exactly_witness:
  "0 < (1000::int) \<and> emptyPolls idleWorld 0 (Suc 3) neverCondition \<noteq> None
   \<and> 1000 < exampleClock 3
   \<and> isTimeout (Wait idleWorld exampleClock 1000 neverCondition)
   \<and> (0::int) \<le> 0 \<and> \<not> isTimeout (Wait idleWorld exampleClock 0 neverCondition)
   \<and> (\<forall>k. emptyPolls idleWorld 0 k neverCondition \<noteq> None)
   \<and> Wait idleWorld exampleClock 0 neverCondition = None
   \<and> emptyPolls idleWorld 0 0 exampleCondition = Some exampleCondition
   \<and> Eval (idleWorld 0) exampleCondition
       = Some (Returns (([goroutineA, goroutineB], None),
                 exampleCondition\<lparr>buf := ''goroutine dump'' @ replicate 2 (CHR 0x00)\<rparr>))
   \<and> Wait idleWorld exampleClock 1000 exampleCondition
       = Some (Returns (([goroutineA, goroutineB], None),
                 exampleCondition\<lparr>buf := ''goroutine dump'' @ replicate 2 (CHR 0x00)\<rparr>))"
proof -
  have clock: "1000 < exampleClock 3" by (simp add: exampleClock_def)
  have polls: "\<forall>k. emptyPolls idleWorld 0 k neverCondition \<noteq> None"
    using neverCondition_polls by blast
  have p3: "emptyPolls idleWorld 0 (Suc 3) neverCondition \<noteq> None"
    using neverCondition_polls .
  have a: "isTimeout (Wait idleWorld exampleClock 1000 neverCondition)"
  proof -
    have "\<exists>k. emptyPolls idleWorld 0 (Suc k) neverCondition \<noteq> None \<and> 1000 < exampleClock k"
      using p3 clock by blast
    then show ?thesis
      using Wait_timeout_exactly[of idleWorld exampleClock 1000 neverCondition, THEN conjunct1]
      by simp
  qed
  have b: "\<not> isTimeout (Wait idleWorld exampleClock 0 neverCondition)"
    using Wait_timeout_exactly[of idleWorld exampleClock 0 neverCondition] by simp
  have c: "Wait idleWorld exampleClock 0 neverCondition = None"
    using Wait_timeout_exactly[of idleWorld exampleClock 0 neverCondition] polls by simp
  have d: "Wait idleWorld exampleClock 1000 exampleCondition
       = Some (Returns (([goroutineA, goroutineB], None),
                 exampleCondition\<lparr>buf := ''goroutine dump'' @ replicate 2 (CHR 0x00)\<rparr>))"
    using Wait_timeout_exactly[of idleWorld exampleClock 1000 exampleCondition 0 exampleCondition
        "[goroutineA, goroutineB]" None
        "exampleCondition\<lparr>buf := ''goroutine dump'' @ replicate 2 (CHR 0x00)\<rparr>"]
      exampleEval
    by simp
  show ?thesis using clock polls p3 a b c d exampleEval by simp
qed

text \<open>
  Claim C10. \<open>Wait\<close> calls \<open>Eval\<close> before it looks at the clock: when the first \<open>Eval\<close>
  returns an error, or a non-empty result, \<open>Wait\<close> returns it for every clock and every
  timeout, also when the elapsed time is already beyond a positive timeout; and when
  \<open>Wait\<close> returns \<open>ErrTimeout\<close>, its first \<open>Eval\<close> has returned, empty and without
  error.
\<close>

theorem Wait_first_poll:
  "(Eval (world 0) c = Some (Returns ((gs, Some e), c'))
      \<longrightarrow> Wait world elapsed timeout c = Some (Returns (([], Some e), c')))
   \<and> (Eval (world 0) c = Some (Returns ((gs, None), c')) \<and> gs \<noteq> []
      \<longrightarrow> Wait world elapsed timeout c = Some (Returns ((gs, None), c')))
   \<and> (isTimeout (Wait world elapsed timeout c)
      \<longrightarrow> (\<exists>c'. Eval (world 0) c = Some (Returns (([], None), c'))))"
proof (intro conjI impI)
  assume "Eval (world 0) c = Some (Returns ((gs, Some e), c'))"
  then show "Wait world elapsed timeout c = Some (Returns (([], Some e), c'))"
    unfolding Wait_def by (rule waitLoop_error)
next
  assume "Eval (world 0) c = Some (Returns ((gs, None), c')) \<and> gs \<noteq> []"
  then show "Wait world elapsed timeout c = Some (Returns ((gs, None), c'))"
    unfolding Wait_def using waitLoop_found[where world=world and i=0] by blast
next
  assume "isTimeout (Wait world elapsed timeout c)"
  then obtain k where "emptyPolls world 0 (Suc k) c \<noteq> None"
    using timeout_only_if[of world elapsed timeout 0 c] by (auto simp: Wait_def)
  from emptyPolls_Suc[OF this] show "\<exists>c'. Eval (world 0) c = Some (Returns (([], None), c'))"
    by blast
qed

theorem Wait_first_poll_witness:
  "Eval (idleWorld 0) exampleCondition
       = Some (Returns (([goroutineA, goroutineB], None),
                 exampleCondition\<lparr>buf := ''goroutine dump'' @ replicate 2 (CHR 0x00)\<rparr>))
   \<and> [goroutineA, goroutineB] \<noteq> []
   \<and> (0::int) < 1000 \<and> (1000::int) < (\<lambda>i. 5000) (0::nat)
   \<and> Wait idleWorld (\<lambda>i. 5000) 1000 exampleCondition
       = Some (Returns (([goroutineA, goroutineB], None),
                 exampleCondition\<lparr>buf := ''goroutine dump'' @ replicate 2 (CHR 0x00)\<rparr>))
   \<and> Eval ((\<lambda>i. brokenRuntime) (0::nat)) exampleCondition
       = Some (Returns (([], Some (ErrParseDump ''unexpected line'')),
                 exampleCondition\<lparr>buf := ''goroutine dump'' @ replicate 2 (CHR 0x00)\<rparr>))
   \<and> Wait (\<lambda>i. brokenRuntime) (\<lambda>i. 5000) 1000 exampleCondition
       = Some (Returns (([], Some (ErrParseDump ''unexpected line'')),
                 exampleCondition\<lparr>buf := ''goroutine dump'' @ replicate 2 (CHR 0x00)\<rparr>))
   \<and> isTimeout (Wait idleWorld exampleClock 1000 neverCondition)
   \<and> (\<exists>c'. Eval (idleWorld 0) neverCondition = Some (Returns (([], None), c')))"
proof -
  let ?c1 = "exampleCondition\<lparr>buf := ''goroutine dump'' @ replicate 2 (CHR 0x00)\<rparr>"
  have a: "Wait idleWorld (\<lambda>i. 5000) 1000 exampleCondition
       = Some (Returns (([goroutineA, goroutineB], None), ?c1))"
    using Wait_first_poll[of idleWorld exampleCondition "[goroutineA, goroutineB]" _ ?c1 "\<lambda>i. 5000" 1000]
      exampleEval by simp
  have b: "Wait (\<lambda>i. brokenRuntime) (\<lambda>i. 5000) 1000 exampleCondition
       = Some (Returns (([], Some (ErrParseDump ''unexpected line'')), ?c1))"
    using Wait_first_poll[of "\<lambda>i. brokenRuntime" exampleCondition "[]"
        "ErrParseDump ''unexpected line''" ?c1 "\<lambda>i. 5000" 1000]
      brokenEval by simp
  have c: "\<exists>c'. Eval (idleWorld 0) neverCondition = Some (Returns (([], None), c'))"
    using Wait_first_poll[of idleWorld neverCondition _ _ _ exampleClock 1000] exampleTimeout
    by blast
  show ?thesis using a b c exampleEval brokenEval exampleTimeout by simp
qed

section \<open>CreatedBy\<close>

text \<open>
  Claim C9. A pattern that does not compile makes \<open>CreatedBy\<close> panic when it is called,
  so no condition carrying the filter exists for an \<open>Eval\<close> to run; with a pattern that
  compiles, \<open>CreatedBy\<close> appends one unit predicate, which accepts exactly the goroutines
  whose creation-site name matches the compiled pattern, and \<open>Eval\<close> on a condition
  holding that predicate alone returns exactly those goroutines of the snapshot.
\<close>

theorem CreatedBy_fails_at_construction:
  "(compile pattern = None \<longrightarrow> (\<exists>m. CreatedBy compile matches pattern c = Panics m))
   \<and> (compile pattern = Some re \<longrightarrow>
        (\<exists>f. CreatedBy compile matches pattern c = Returns (c\<lparr>filters := filters c @ [FilterByGo f]\<rparr>)
           \<and> (\<forall>g. f g = matches re (CreatedByFunc g))))
   \<and> (compile pattern = Some re \<and> filters c = [] \<and> snapshot rt c = Some (gs, b) \<longrightarrow>
        (\<exists>c'. CreatedBy compile matches pattern c = Returns c'
           \<and> results (Eval rt c')
               = Some (Returns (filter (\<lambda>g. matches re (CreatedByFunc g)) gs, None))))"
proof (intro conjI impI)
  assume "compile pattern = None"
  then show "\<exists>m. CreatedBy compile matches pattern c = Panics m"
    by (simp add: CreatedBy_def)
next
  assume "compile pattern = Some re"
  then have "CreatedBy compile matches pattern c
      = Returns (c\<lparr>filters := filters c @ [FilterByGo (\<lambda>g. matches re (CreatedByFunc g))]\<rparr>)"
    by (simp add: CreatedBy_def)
  then show "\<exists>f. CreatedBy compile matches pattern c = Returns (c\<lparr>filters := filters c @ [FilterByGo f]\<rparr>)
           \<and> (\<forall>g. f g = matches re (CreatedByFunc g))"
    by blast
next
  assume a: "compile pattern = Some re \<and> filters c = [] \<and> snapshot rt c = Some (gs, b)"
  let ?f = "\<lambda>g. matches re (CreatedByFunc g)"
  have cb: "CreatedBy compile matches pattern c = Returns (c\<lparr>filters := [FilterByGo ?f]\<rparr>)"
    using a by (simp add: CreatedBy_def)
  have "results (Eval rt (c\<lparr>filters := [FilterByGo ?f]\<rparr>)) = Some (Returns (filter ?f gs, None))"
    using a by (simp add: results_Eval[of rt c gs b])
  with cb show "\<exists>c'. CreatedBy compile matches pattern c = Returns c'
           \<and> results (Eval rt c') = Some (Returns (filter ?f gs, None))"
    by simp
qed

theorem CreatedBy_fails_at_construction_witness:
  "literalCompile ''('' = None
   \<and> CreatedBy literalCompile literalMatch ''('' exampleCondition
       = Panics ''regexp: Compile: pattern does not parse''
   \<and> literalCompile ''worker'' = Some ''worker''
   \<and> filters exampleCondition = []
   \<and> snapshot exampleRuntime exampleCondition
       = Some ([goroutineA, goroutineB], ''goroutine dump'' @ replicate 2 (CHR 0x00))
   \<and> (\<exists>c'. CreatedBy literalCompile literalMatch ''worker'' exampleCondition = Returns c'
         \<and> results (Eval exampleRuntime c') = Some (Returns ([goroutineB], None)))"
proof -
  have n: "literalCompile ''('' = None" by (simp add: literalCompile_def)
  have s: "literalCompile ''worker'' = Some ''worker''" by (simp add: literalCompile_def)
  have f: "filters exampleCondition = []" by (simp add: exampleCondition_def)
  have m: "filter (\<lambda>g. literalMatch ''worker'' (CreatedByFunc g)) [goroutineA, goroutineB] = [goroutineB]"
    by (simp add: literalMatch_def goroutineA_def goroutineB_def HasPrefix_def)
  note inst = CreatedBy_fails_at_construction[where compile=literalCompile and matches=literalMatch
      and c=exampleCondition]
  have a: "CreatedBy literalCompile literalMatch ''('' exampleCondition
       = Panics ''regexp: Compile: pattern does not parse''"
    using inst[where pattern="''(''"] n by (auto simp: CreatedBy_def)
  have b: "\<exists>c'. CreatedBy literalCompile literalMatch ''worker'' exampleCondition = Returns c'
         \<and> results (Eval exampleRuntime c') = Some (Returns ([goroutineB], None))"
    using inst[where pattern="''worker''" and re="''worker''" and rt=exampleRuntime
        and gs="[goroutineA, goroutineB]" and b="''goroutine dump'' @ replicate 2 (CHR 0x00)"]
      s f exampleSnapshot m
    by simp
  show ?thesis using n s f exampleSnapshot a b by simp
qed

end
